theory Spec2Isabelle
  imports Complex_Main
begin

section \<open>Python values\<close>

text \<open>
  A Python float is a double. The voltage parser produces floats from digits and dots
  only, so a float here is a real number or the positive infinity (what \<open>float\<close>
  gives once the digits exceed the range of a double); a NaN or a negative infinity
  cannot arise. The order is that of Python's comparisons.
\<close>

datatype pyfloat = Finite real | Infinity

instantiation pyfloat :: linorder
begin

fun less_eq_pyfloat :: "pyfloat \<Rightarrow> pyfloat \<Rightarrow> bool" where
  "less_eq_pyfloat (Finite x) (Finite y) = (x \<le> y)"
| "less_eq_pyfloat a Infinity = True"
| "less_eq_pyfloat Infinity (Finite y) = False"

definition less_pyfloat :: "pyfloat \<Rightarrow> pyfloat \<Rightarrow> bool" where
  "less_pyfloat a b = (a \<le> b \<and> \<not> b \<le> a)"

instance
proof
  fix a b c :: pyfloat
  show "(a < b) = (a \<le> b \<and> \<not> b \<le> a)" by (simp add: less_pyfloat_def)
  show "a \<le> a" by (cases a) simp_all
  show "a \<le> b \<Longrightarrow> b \<le> c \<Longrightarrow> a \<le> c" by (cases a; cases b; cases c) simp_all
  show "a \<le> b \<Longrightarrow> b \<le> a \<Longrightarrow> a = b" by (cases a; cases b) simp_all
  show "a \<le> b \<or> b \<le> a" by (cases a; cases b) auto
qed

end

text \<open>
  A Python string is the list of its code points. \<open>str\<close> gives the Python string of
  a literal.
\<close>

type_synonym pystr = "nat list"

definition str :: "string \<Rightarrow> pystr" where
  "str s = map of_char s"

section \<open>Data model of the grid\<close>

text \<open>
  A line record is the dictionary \<open>line_info\<close> that \<open>build_grid_from_geojson\<close> creates
  for every segment. The length is modelled as a real number.
\<close>

record line =
  idx :: int
  from_bus :: int
  to_bus :: int
  voltage_kv :: pyfloat
  name :: string
  power_type :: string
  length_km :: real
  in_service :: bool

text \<open>
  A networkx \<open>Graph\<close> is a dictionary of dictionaries that keeps insertion order: the
  association list holds the nodes in insertion order, each with its neighbours in
  insertion order.
\<close>

type_synonym nxgraph = "(int \<times> int list) list"

text \<open>
  The dictionaries of \<open>line_list\<close> are objects shared with \<open>line_data\<close>: the builder
  stores the very same dictionary under both. The model keeps the objects in a store
  (\<open>line_store\<close>, from object address to record); \<open>line_list\<close> and \<open>line_data\<close> hold
  addresses.
\<close>

record grid =
  G :: nxgraph
  bus_geo :: "int \<rightharpoonup> real \<times> real"
  bus_voltage :: "int \<rightharpoonup> pyfloat"
  line_data :: "int \<times> int \<rightharpoonup> nat"
  line_list :: "nat list"
  line_store :: "nat \<Rightarrow> line"
  ext_grid_bus :: int

definition lines_of :: "grid \<Rightarrow> line list" where
  "lines_of g = map (line_store g) (line_list g)"

section \<open>GridNetwork.set\_line\_in\_service\<close>

definition set_line_in_service :: "grid \<Rightarrow> int \<Rightarrow> bool \<Rightarrow> grid" where
  "set_line_in_service g line_idx b =
     (if 0 \<le> line_idx \<and> line_idx < int (length (line_list g))
      then (let a = line_list g ! nat line_idx
            in g\<lparr>line_store := (line_store g)(a := (line_store g a)\<lparr>in_service := b\<rparr>)\<rparr>)
      else g)"

section \<open>Fault engine: energize\_grid and trigger\_fault\<close>

text \<open>
  The functions of \<open>power_flow.py\<close> print a message and return the empty dictionary
  where they give up. \<open>Inl e\<close> stands for that outcome, \<open>e\<close> naming the message printed.
\<close>

datatype error = IndexOutOfRange | NoInServiceLines | KeyError | IndexError
  | NetworkXError | NetworkXPointlessConcept

record fault_info =
  fi_line_idx :: int
  fi_from_bus :: int
  fi_to_bus :: int
  fi_line_name :: string
  fi_voltage_kv :: pyfloat

fun energize_lines :: "nat list \<Rightarrow> (nat \<Rightarrow> line) \<Rightarrow> (nat \<Rightarrow> line)" where
  "energize_lines [] st = st"
| "energize_lines (a # as) st = energize_lines as (st(a := (st a)\<lparr>in_service := True\<rparr>))"

definition energize_grid :: "grid \<Rightarrow> grid" where
  "energize_grid g = g\<lparr>line_store := energize_lines (line_list g) (line_store g)\<rparr>"

definition trigger_fault :: "grid \<Rightarrow> int \<Rightarrow> (error + fault_info) \<times> grid" where
  "trigger_fault g line_idx =
     (if line_idx < 0 \<or> line_idx \<ge> int (length (line_list g))
      then (Inl IndexOutOfRange, g)
      else (let a = line_list g ! nat line_idx;
                l = (line_store g a)\<lparr>in_service := False\<rparr>
            in (Inr \<lparr>fi_line_idx = line_idx, fi_from_bus = from_bus l, fi_to_bus = to_bus l,
                     fi_line_name = name l, fi_voltage_kv = voltage_kv l\<rparr>,
                g\<lparr>line_store := (line_store g)(a := l)\<rparr>)))"

section \<open>Sensor readings\<close>

definition read_sensors :: "int list \<Rightarrow> (int \<rightharpoonup> int) \<Rightarrow> (int \<rightharpoonup> int)" where
  "read_sensors sensors energized_status =
     (\<lambda>s. if s \<in> set sensors
          then Some (case energized_status s of None \<Rightarrow> 0 | Some v \<Rightarrow> v)
          else None)"

text \<open>
  The loop of \<open>identify_faulty_block\<close> over \<open>enumerate(sensors)\<close>; \<open>i\<close> is the running
  index. A sensor without a reading counts as live (\<open>get(sensor_bus, 1)\<close>).
\<close>

fun identify_from :: "(int \<rightharpoonup> int) \<Rightarrow> int list \<Rightarrow> int \<Rightarrow> int" where
  "identify_from sensor_readings [] i = - 1"
| "identify_from sensor_readings (sensor_bus # rest) i =
     (if (case sensor_readings sensor_bus of None \<Rightarrow> 1 | Some v \<Rightarrow> v) = 0 then i
      else identify_from sensor_readings rest (i + 1))"

definition identify_faulty_block ::
    "(int \<rightharpoonup> int) \<Rightarrow> int list \<Rightarrow> int list list \<Rightarrow> int" where
  "identify_faulty_block sensor_readings sensors blocks = identify_from sensor_readings sensors 0"

section \<open>A small grid: the path 0-1-2-3-4 with source 0\<close>

definition path_line :: "nat \<Rightarrow> line" where
  "path_line a = \<lparr>idx = int a, from_bus = int a, to_bus = int a + 1, voltage_kv = Finite 11,
     name = ''L'', power_type = ''line'', length_km = 1, in_service = True\<rparr>"

definition path_grid :: grid where
  "path_grid = \<lparr>G = [(0, [1]), (1, [0, 2]), (2, [1, 3]), (3, [2, 4]), (4, [3])],
     bus_geo = Map.empty, bus_voltage = Map.empty, line_data = Map.empty,
     line_list = [0, 1, 2, 3], line_store = path_line, ext_grid_bus = 0\<rparr>"

section \<open>Library operations taken as parameters\<close>

text \<open>
  The floating-point operations, the formatting and the tables of the Unicode database
  that the code relies on are parameters, so that what is proved holds whatever they
  compute: \<open>round4\<close> is \<open>round(x, 4)\<close>, \<open>haversine\<close> is \<open>_haversine\<close>, \<open>line_name\<close>
  formats the name of a line from the feature identifier, the segment number and the
  voltage, and \<open>default_id\<close> formats the identifier of a feature that has none.
  \<open>to_double\<close> rounds a real number to the nearest double (an infinity when it is out
  of range): \<open>float\<close> applies it to the number that a numeral denotes, and a division
  applies it to the quotient. \<open>uni_isdigit\<close> tells whether a code point from 128 on
  is a digit for \<open>str.isdigit\<close>, and \<open>uni_decimal\<close> gives the value of a code point
  from 128 on that is a decimal digit for \<open>float\<close> (the Arabic-Indic digits are both,
  a superscript two is a digit for \<open>str.isdigit\<close> only).
\<close>

record float_ops =
  round4 :: "real \<Rightarrow> real"
  haversine :: "real \<Rightarrow> real \<Rightarrow> real \<Rightarrow> real \<Rightarrow> real"
  line_name :: "string \<Rightarrow> nat \<Rightarrow> pyfloat \<Rightarrow> string"
  default_id :: "nat \<Rightarrow> string"
  to_double :: "real \<Rightarrow> pyfloat"
  uni_isdigit :: "nat \<Rightarrow> bool"
  uni_decimal :: "nat \<Rightarrow> nat option"

section \<open>parse\_voltage\_kv\<close>

text \<open>
  The string methods that \<open>parse_voltage_kv\<close> calls. \<open>str.strip\<close> removes the
  whitespace of \<open>str.isspace\<close> at both ends; \<open>str.isdigit\<close> holds of a string that is
  not empty and made of digit characters; \<open>str.split\<close> cuts at every separator.
\<close>

definition isspace_py :: "nat \<Rightarrow> bool" where
  "isspace_py c =
     (c \<in> {9, 10, 11, 12, 13, 28, 29, 30, 31, 32, 133, 160, 5760}
      \<or> (8192 \<le> c \<and> c \<le> 8202)
      \<or> c \<in> {8232, 8233, 8239, 8287, 12288})"

definition isdigit_char :: "float_ops \<Rightarrow> nat \<Rightarrow> bool" where
  "isdigit_char ops c = (if c < 128 then 48 \<le> c \<and> c \<le> 57 else uni_isdigit ops c)"

definition decimal_char :: "float_ops \<Rightarrow> nat \<Rightarrow> nat option" where
  "decimal_char ops c =
     (if c < 128 then (if 48 \<le> c \<and> c \<le> 57 then Some (c - 48) else None)
      else uni_decimal ops c)"

definition isdigit_py :: "float_ops \<Rightarrow> pystr \<Rightarrow> bool" where
  "isdigit_py ops s = (s \<noteq> [] \<and> list_all (isdigit_char ops) s)"

definition strip_py :: "pystr \<Rightarrow> pystr" where
  "strip_py s = rev (dropWhile isspace_py (rev (dropWhile isspace_py s)))"

fun split_py :: "nat \<Rightarrow> pystr \<Rightarrow> pystr list" where
  "split_py sep [] = [[]]"
| "split_py sep (c # cs) =
     (if c = sep then [] # split_py sep cs
      else (case split_py sep cs of [] \<Rightarrow> [[c]] | t # ts \<Rightarrow> (c # t) # ts))"

text \<open>
  \<open>float\<close> is modelled where \<open>parse_voltage_kv\<close> calls it: on a stripped token made
  of digit characters and dots, with a digit character. There it returns the double
  nearest to the number written when every digit is a decimal digit and there is at
  most one dot, and raises \<open>ValueError\<close> (\<open>None\<close>) otherwise.
\<close>

definition digits_value :: "float_ops \<Rightarrow> pystr \<Rightarrow> nat" where
  "digits_value ops s =
     foldl (\<lambda>n c. 10 * n + (case decimal_char ops c of None \<Rightarrow> 0 | Some d \<Rightarrow> d)) 0 s"

definition float_py :: "float_ops \<Rightarrow> pystr \<Rightarrow> pyfloat option" where
  "float_py ops t =
     (if list_all (\<lambda>c. decimal_char ops c \<noteq> None \<or> c = 46) t
         \<and> length (filter (\<lambda>c. c = 46) t) \<le> 1
         \<and> list_ex (\<lambda>c. decimal_char ops c \<noteq> None) t
      then (let ip = takeWhile (\<lambda>c. c \<noteq> 46) t;
                fp = drop 1 (dropWhile (\<lambda>c. c \<noteq> 46) t)
            in Some (to_double ops
                       (real (digits_value ops ip) + real (digits_value ops fp) / 10 ^ length fp)))
      else None)"

text \<open>\<open>max\<close> of a list that is not empty, and the division \<open>max_v / 1000.0\<close>.\<close>

definition max_py :: "pyfloat list \<Rightarrow> pyfloat" where
  "max_py vs = fold max (tl vs) (hd vs)"

fun div_1000 :: "float_ops \<Rightarrow> pyfloat \<Rightarrow> pyfloat" where
  "div_1000 ops (Finite x) = to_double ops (x / 1000)"
| "div_1000 ops Infinity = Infinity"

text \<open>
  The list comprehension raises at the first token that passes the filter and is not
  a float; \<open>those\<close> is \<open>None\<close> then, and the \<open>except\<close> clause returns 11.0. Nothing
  else in the body raises: the function returns a float for every string.
\<close>

definition parse_voltage_kv :: "float_ops \<Rightarrow> pystr \<Rightarrow> pyfloat" where
  "parse_voltage_kv ops voltage_str =
     (if voltage_str = [] then Finite 11
      else (case those (map (\<lambda>p. float_py ops (strip_py p))
                         (filter (\<lambda>p. isdigit_py ops (filter (\<lambda>c. c \<noteq> 46) (strip_py p)))
                                 (split_py 59 voltage_str)))
            of None \<Rightarrow> Finite 11
             | Some values \<Rightarrow>
                 (if values = [] then Finite 11
                  else (let max_v = max_py values
                        in if max_v > Finite 1000 then div_1000 ops max_v
                           else if max_v > Finite 0 then max_v else Finite 11))))"

subsection \<open>The parser as the specification words it\<close>

text \<open>
  The \<open>;\<close>-separated tokens of a voltage string, given by what they are instead of by
  their characters. A numeral is whitespace, digits (their values, the most
  significant first), possibly a dot and further digits, and whitespace. \<open>Other\<close> is
  any other text between two separators.
\<close>

datatype token = Numeral pystr "nat list" "nat list option" pystr | Other pystr

fun token_text :: "token \<Rightarrow> pystr" where
  "token_text (Numeral ws1 ip fp ws2) =
     ws1 @ map (\<lambda>d. 48 + d) ip
       @ (case fp of None \<Rightarrow> [] | Some f \<Rightarrow> 46 # map (\<lambda>d. 48 + d) f) @ ws2"
| "token_text (Other t) = t"

fun join_py :: "nat \<Rightarrow> pystr list \<Rightarrow> pystr" where
  "join_py sep [] = []"
| "join_py sep [t] = t"
| "join_py sep (t # ts) = t @ sep # join_py sep ts"

definition tokens_text :: "token list \<Rightarrow> pystr" where
  "tokens_text toks = join_py 59 (map token_text toks)"

fun digits_nat :: "nat list \<Rightarrow> nat" where
  "digits_nat [] = 0"
| "digits_nat (d # ds) = d * 10 ^ length ds + digits_nat ds"

fun token_value :: "token \<Rightarrow> real option" where
  "token_value (Numeral ws1 ip fp ws2) =
     Some (real (digits_nat ip)
           + (case fp of None \<Rightarrow> 0 | Some f \<Rightarrow> real (digits_nat f) / 10 ^ length f))"
| "token_value (Other t) = None"

text \<open>
  A numeral is well formed when its digits are at most 9 and there is one at least.
  Another token is one that the parser is to ignore: it has a character that is
  neither whitespace nor a digit nor a dot, or it has no digit at all. A text of digits
  and dots that is not a numeral (two dots, a superscript digit, a blank between two
  digits) is neither.
\<close>

fun wf_token :: "float_ops \<Rightarrow> token \<Rightarrow> bool" where
  "wf_token ops (Numeral ws1 ip fp ws2) =
     (list_all isspace_py ws1 \<and> list_all isspace_py ws2 \<and> list_all (\<lambda>d. d \<le> 9) ip
      \<and> (case fp of None \<Rightarrow> ip \<noteq> []
          | Some f \<Rightarrow> list_all (\<lambda>d. d \<le> 9) f \<and> (ip \<noteq> [] \<or> f \<noteq> [])))"
| "wf_token ops (Other t) =
     (59 \<notin> set t
      \<and> (list_ex (\<lambda>c. \<not> isspace_py c \<and> \<not> isdigit_char ops c \<and> c \<noteq> 46) t
          \<or> list_all (\<lambda>c. \<not> isdigit_char ops c) t))"

definition numeric_values :: "float_ops \<Rightarrow> token list \<Rightarrow> pyfloat list" where
  "numeric_values ops toks = map (to_double ops) (List.map_filter token_value toks)"

text \<open>
  The specification: the maximum of the numeric tokens, divided by 1000 above 1000,
  used as it is otherwise, and 11.0 without a numeric token.
\<close>

definition voltage_claimed :: "float_ops \<Rightarrow> token list \<Rightarrow> pyfloat" where
  "voltage_claimed ops toks =
     (let vs = numeric_values ops toks
      in if vs = [] then Finite 11
         else (let m = Max (set vs) in if m > Finite 1000 then div_1000 ops m else m))"

text \<open>The same with 11.0 for a maximum that is zero.\<close>

definition voltage_amended :: "float_ops \<Rightarrow> token list \<Rightarrow> pyfloat" where
  "voltage_amended ops toks =
     (let vs = numeric_values ops toks
      in if vs = [] then Finite 11
         else (let m = Max (set vs)
               in if m > Finite 1000 then div_1000 ops m
                  else if m > Finite 0 then m else Finite 11))"

text \<open>Doubles hold the integers up to \<open>2 ^ 53\<close> exactly.\<close>

definition exact_integers :: "float_ops \<Rightarrow> bool" where
  "exact_integers ops = (\<forall>n::nat. n \<le> 2 ^ 53 \<longrightarrow> to_double ops (real n) = Finite (real n))"

section \<open>The networkx graph operations the program uses\<close>

text \<open>
  These follow the behaviour of the networkx library on the insertion-ordered
  adjacency dictionary: \<open>nodes\<close> is \<open>G.nodes()\<close>, \<open>nbrs gr n\<close> is the iteration over
  \<open>G[n]\<close>, \<open>add_node\<close>, \<open>add_edge\<close>, \<open>remove_edge\<close> and \<open>remove_nodes_from\<close> are the
  methods of the same names.
\<close>

definition nodes :: "nxgraph \<Rightarrow> int list" where
  "nodes gr = map fst gr"

definition nbrs :: "nxgraph \<Rightarrow> int \<Rightarrow> int list" where
  "nbrs gr n = (case map_of gr n of None \<Rightarrow> [] | Some ns \<Rightarrow> ns)"

definition add_node :: "nxgraph \<Rightarrow> int \<Rightarrow> nxgraph" where
  "add_node gr n = (if n \<in> set (nodes gr) then gr else gr @ [(n, [])])"

definition add_nbr :: "nxgraph \<Rightarrow> int \<Rightarrow> int \<Rightarrow> nxgraph" where
  "add_nbr gr u v =
     map (\<lambda>(n, ns). if n = u then (n, if v \<in> set ns then ns else ns @ [v]) else (n, ns)) gr"

definition add_edge :: "nxgraph \<Rightarrow> int \<Rightarrow> int \<Rightarrow> nxgraph" where
  "add_edge gr u v = add_nbr (add_nbr (add_node (add_node gr u) v) u v) v u"

definition del_nbr :: "nxgraph \<Rightarrow> int \<Rightarrow> int \<Rightarrow> nxgraph" where
  "del_nbr gr u v = map (\<lambda>(n, ns). if n = u then (n, filter (\<lambda>m. m \<noteq> v) ns) else (n, ns)) gr"

definition remove_edge :: "nxgraph \<Rightarrow> int \<Rightarrow> int \<Rightarrow> nxgraph" where
  "remove_edge gr u v = del_nbr (del_nbr gr u v) v u"

definition remove_nodes_from :: "nxgraph \<Rightarrow> int list \<Rightarrow> nxgraph" where
  "remove_nodes_from gr removed =
     map (\<lambda>(n, ns). (n, filter (\<lambda>m. m \<notin> set removed) ns))
         (filter (\<lambda>(n, ns). n \<notin> set removed) gr)"

definition number_of_nodes :: "nxgraph \<Rightarrow> nat" where
  "number_of_nodes gr = length gr"

text \<open>
  \<open>number_of_edges\<close> is half the sum of the degrees, a self-loop counting twice in the
  degree of its node.
\<close>

definition number_of_edges :: "nxgraph \<Rightarrow> nat" where
  "number_of_edges gr =
     sum_list (map (\<lambda>(n, ns). length ns + (if n \<in> set ns then 1 else 0)) gr) div 2"

text \<open>
  The invariant that the library keeps for every \<open>Graph\<close>: the nodes are the keys of a
  dictionary, every neighbour is a node, no neighbour is listed twice, and adjacency
  is symmetric.
\<close>

definition nx_graph :: "nxgraph \<Rightarrow> bool" where
  "nx_graph gr =
     (distinct (nodes gr)
      \<and> (\<forall>n \<in> set (nodes gr). distinct (nbrs gr n) \<and> set (nbrs gr n) \<subseteq> set (nodes gr)
            \<and> (\<forall>m \<in> set (nbrs gr n). n \<in> set (nbrs gr m))))"

text \<open>The adjacency relation of a graph, and reachability in it.\<close>

definition adjacent :: "nxgraph \<Rightarrow> (int \<times> int) set" where
  "adjacent gr = {(u, v). v \<in> set (nbrs gr u)}"

subsection \<open>Depth-first traversal\<close>

text \<open>
  \<open>dfs_labeled_edges\<close> keeps a stack of neighbour iterators. The innermost iterator is
  advanced; a child not yet visited is recorded and its own iterator is pushed; an
  exhausted iterator is popped. \<open>dfs_loop\<close> returns the nodes in the order of their
  first visit, which is what \<open>dfs_preorder_nodes\<close> yields.
\<close>

function dfs_loop :: "nxgraph \<Rightarrow> int list list \<Rightarrow> int list \<Rightarrow> int list" where
  "dfs_loop gr [] visited = visited"
| "dfs_loop gr ([] # stack) visited = dfs_loop gr stack visited"
| "dfs_loop gr ((child # children) # stack) visited =
     (if child \<in> set visited then dfs_loop gr (children # stack) visited
      else dfs_loop gr (nbrs gr child # children # stack) (visited @ [child]))"
  by pat_completeness auto
termination
proof (relation "measures [\<lambda>(gr, stack, visited). card (set (nodes gr) - set visited),
                           \<lambda>(gr, stack, visited). sum_list (map (\<lambda>cs. 2 * length cs + 1) stack)]",
       goal_cases)
  case 1
  then show ?case by simp
next
  case (2 gr stack visited)
  then show ?case by simp
next
  case (3 gr child children stack visited)
  then show ?case by simp
next
  case (4 gr child children stack visited)
  show ?case
  proof (cases "child \<in> set (nodes gr)")
    case True
    have eq: "set (nodes gr) - set (visited @ [child]) = (set (nodes gr) - set visited) - {child}"
      by auto
    have mem: "child \<in> set (nodes gr) - set visited" using True 4 by simp
    have fin: "finite (set (nodes gr) - set visited)" by simp
    have "card (set (nodes gr) - set (visited @ [child]))
        < card (set (nodes gr) - set visited)"
      unfolding eq by (rule card_Diff1_less [OF fin mem])
    then show ?thesis by simp
  next
    case False
    then have "map_of gr child = None"
      by (simp add: nodes_def map_of_eq_None_iff)
    then have e: "nbrs gr child = []" by (simp add: nbrs_def)
    have "set (nodes gr) - set (visited @ [child]) = set (nodes gr) - set visited"
      using False by auto
    then show ?thesis using e by simp
  qed
qed

text \<open>
  \<open>G[source]\<close> raises \<open>KeyError\<close> for a source that is not a node. The depth limit of
  the library, the number of nodes, is never reached by a traversal and is left out.
\<close>

definition dfs_preorder_nodes :: "nxgraph \<Rightarrow> int \<Rightarrow> error + int list" where
  "dfs_preorder_nodes gr source =
     (if source \<in> set (nodes gr) then Inr (dfs_loop gr [nbrs gr source] [source])
      else Inl KeyError)"

text \<open>
  \<open>descendants\<close> is the set of the nodes reachable from the source, the source itself
  left out; it raises for a source that is not a node. The result being a set, the
  order of the traversal that computes it does not matter.
\<close>

definition descendants :: "nxgraph \<Rightarrow> int \<Rightarrow> error + int set" where
  "descendants gr source =
     (if source \<in> set (nodes gr)
      then Inr (set (dfs_loop gr [nbrs gr source] [source]) - {source})
      else Inl NetworkXError)"

text \<open>The nodes that are still waiting in the iterators of the stack.\<close>

definition stack_set :: "int list list \<Rightarrow> int set" where
  "stack_set stack = \<Union> (set ` set stack)"

subsection \<open>Depth-first preorder, specified recursively\<close>

text \<open>
  The textbook depth-first search, independent of the stack of iterators: to visit a
  node that has been visited already changes nothing; to visit a new node records it
  and then visits its neighbours one after the other, in their order. \<open>dfs_visit gr v
  visited visited'\<close> says that visiting \<open>v\<close> extends the list of the recorded nodes from
  \<open>visited\<close> to \<open>visited'\<close>. The depth-first preorder from \<open>s\<close> is the list \<open>order\<close> with
  \<open>dfs_visit gr s [] order\<close>.
\<close>

inductive dfs_visit :: "nxgraph \<Rightarrow> int \<Rightarrow> int list \<Rightarrow> int list \<Rightarrow> bool"
  and dfs_children :: "nxgraph \<Rightarrow> int list \<Rightarrow> int list \<Rightarrow> int list \<Rightarrow> bool"
  for gr :: nxgraph where
  visit_seen: "v \<in> set visited \<Longrightarrow> dfs_visit gr v visited visited"
| visit_new: "v \<notin> set visited \<Longrightarrow> dfs_children gr (nbrs gr v) (visited @ [v]) visited'
              \<Longrightarrow> dfs_visit gr v visited visited'"
| children_done: "dfs_children gr [] visited visited"
| children_next: "dfs_visit gr c visited visited1 \<Longrightarrow> dfs_children gr cs visited1 visited2
              \<Longrightarrow> dfs_children gr (c # cs) visited visited2"

text \<open>The same for a stack of iterators: the lists of children are worked off in turn.\<close>

inductive dfs_stack :: "nxgraph \<Rightarrow> int list list \<Rightarrow> int list \<Rightarrow> int list \<Rightarrow> bool"
  for gr :: nxgraph where
  stack_empty: "dfs_stack gr [] visited visited"
| stack_next: "dfs_children gr cs visited visited1 \<Longrightarrow> dfs_stack gr stack visited1 visited2
              \<Longrightarrow> dfs_stack gr (cs # stack) visited visited2"

section \<open>Energization status\<close>

definition add_nodes_from :: "nxgraph \<Rightarrow> int list \<Rightarrow> nxgraph" where
  "add_nodes_from gr ns = fold (\<lambda>n acc. add_node acc n) ns gr"

definition get_active_graph :: "grid \<Rightarrow> nxgraph" where
  "get_active_graph g =
     fold (\<lambda>l active. if in_service l then add_edge active (from_bus l) (to_bus l) else active)
          (lines_of g) (add_nodes_from [] (nodes (G g)))"

text \<open>
  The status dictionary has one entry per node of \<open>G\<close>, 1 for energized and 0 for
  de-energized. \<open>descendants\<close> cannot raise here, the source being a node of the
  active graph; the \<open>except\<close> branch is kept as the source has it.
\<close>

definition get_energized_status :: "grid \<Rightarrow> (int \<rightharpoonup> int)" where
  "get_energized_status g =
     (let active_graph = get_active_graph g;
          start_bus = ext_grid_bus g
      in if start_bus < 0 \<or> start_bus \<notin> set (nodes active_graph)
         then (\<lambda>b. if b \<in> set (nodes (G g)) then Some 0 else None)
         else (let reachable = (case descendants active_graph start_bus of
                                  Inr d \<Rightarrow> d \<union> {start_bus}
                                | Inl e \<Rightarrow> {})
               in (\<lambda>b. if b \<in> set (nodes (G g))
                       then Some (if b \<in> reachable then 1 else 0) else None)))"

text \<open>
  The data invariant of a grid: \<open>G\<close> is a networkx graph, bus identifiers are not
  negative (the builder numbers them from 0, and a negative \<open>ext_grid_bus\<close> means
  that there is no source), and every line joins two nodes of \<open>G\<close>.
\<close>

definition wf_grid :: "grid \<Rightarrow> bool" where
  "wf_grid g =
     (nx_graph (G g)
      \<and> (\<forall>n \<in> set (nodes (G g)). 0 \<le> n)
      \<and> (\<forall>l \<in> set (lines_of g). from_bus l \<in> set (nodes (G g)) \<and> to_bus l \<in> set (nodes (G g))))"

text \<open>
  The edges in service, and the nodes reachable from the source through them in either
  direction.
\<close>

definition in_service_edges :: "grid \<Rightarrow> (int \<times> int) set" where
  "in_service_edges g = {(from_bus l, to_bus l) | l. l \<in> set (lines_of g) \<and> in_service l}"

definition energized_set :: "grid \<Rightarrow> int set" where
  "energized_set g = (in_service_edges g \<union> (in_service_edges g)\<inverse>)\<^sup>* `` {ext_grid_bus g}"

text \<open>The path grid after the line between 2 and 3 has been faulted.\<close>

definition faulted_path :: grid where
  "faulted_path = snd (trigger_fault path_grid 2)"

section \<open>Sensor placement\<close>

text \<open>
  \<open>math.ceil(math.sqrt(n))\<close>, over the reals. (The double-precision square root
  agrees with it for every node count below \<open>2 ^ 52\<close>.)
\<close>

definition ceil_sqrt :: "nat \<Rightarrow> nat" where
  "ceil_sqrt n = nat \<lceil>sqrt (real n)\<rceil>"

text \<open>\<open>range(0, n, k)\<close> for a positive step: the multiples of \<open>k\<close> below \<open>n\<close>.\<close>

definition range_step :: "nat \<Rightarrow> nat \<Rightarrow> nat list" where
  "range_step n k = map (\<lambda>j. j * k) [0..<(n + k - 1) div k]"

text \<open>
  A negative \<open>ext_grid_bus\<close> prints the error and returns two empty lists. A source
  that is not a node of \<open>G\<close> makes the traversal raise \<open>KeyError\<close>.
\<close>

definition place_sensors_sqrt_n :: "grid \<Rightarrow> error + int list \<times> int list list" where
  "place_sensors_sqrt_n g =
     (if ext_grid_bus g < 0 then Inr ([], [])
      else (case dfs_preorder_nodes (G g) (ext_grid_bus g) of
              Inl e \<Rightarrow> Inl e
            | Inr dfs_ordering \<Rightarrow>
                (let n = length dfs_ordering
                 in if n = 0 then Inr ([], [])
                    else (let k = ceil_sqrt n;
                              blocks = map (\<lambda>i. take k (drop i dfs_ordering)) (range_step n k);
                              sensors = map last blocks
                          in Inr (sensors, blocks)))))"

text \<open>A graph is connected from a node when every node is reachable from it.\<close>

definition connected_from :: "nxgraph \<Rightarrow> int \<Rightarrow> bool" where
  "connected_from gr s = (set (nodes gr) \<subseteq> (adjacent gr)\<^sup>* `` {s})"

text \<open>
  A grid with a branch at the source: lines 0-2, 2-3, 0-1 and 1-4, source 0. Its
  depth-first preorder from 0 is 0, 2, 3, 1, 4, which is not the order of its nodes.
\<close>

definition branch_line :: "nat \<Rightarrow> line" where
  "branch_line a =
     (let ends = [(0, 2), (2, 3), (0, 1), (1, 4)] ! a
      in \<lparr>idx = int a, from_bus = fst ends, to_bus = snd ends, voltage_kv = Finite 11,
           name = ''L'', power_type = ''line'', length_km = 1, in_service = True\<rparr>)"

definition branch_grid :: grid where
  "branch_grid = \<lparr>G = [(0, [2, 1]), (1, [0, 4]), (2, [0, 3]), (3, [2]), (4, [1])],
     bus_geo = Map.empty, bus_voltage = Map.empty, line_data = Map.empty,
     line_list = [0, 1, 2, 3], line_store = branch_line, ext_grid_bus = 0\<rparr>"

section \<open>The grid builder\<close>

text \<open>
  A feature of the buckets \<open>lines\<close>, \<open>minor_lines\<close> and \<open>cables\<close>: the optional \<open>id\<close>,
  the optional \<open>voltage\<close> and \<open>power\<close> properties, and the coordinates of its geometry
  (an absent key is the empty list, as \<open>get('coordinates', [])\<close> makes it). A coordinate
  is a list of numbers, longitude first.
\<close>

record line_feat =
  lf_id :: "string option"
  lf_voltage :: "pystr option"
  lf_power :: "string option"
  lf_coords :: "real list list"

datatype geometry = Point "real list" | Polygon "real list list list" | OtherGeometry

record sub_feat =
  sf_voltage :: "pystr option"
  sf_geometry :: geometry

record classified_features =
  lines :: "line_feat list"
  minor_lines :: "line_feat list"
  cables :: "line_feat list"
  substations :: "sub_feat list"

definition no_line :: line where
  "no_line = \<lparr>idx = - 1, from_bus = - 1, to_bus = - 1, voltage_kv = Finite 0, name = [],
     power_type = [], length_km = 0, in_service = False\<rparr>"

text \<open>\<open>GridNetwork()\<close>: the empty grid. No line object is allocated yet.\<close>

definition empty_grid :: grid where
  "empty_grid = \<lparr>G = [], bus_geo = Map.empty, bus_voltage = Map.empty, line_data = Map.empty,
     line_list = [], line_store = (\<lambda>a. no_line), ext_grid_bus = - 1\<rparr>"

text \<open>
  The local variables of step 1. A new line object gets the address \<open>line_idx\<close>, its
  creation number.
\<close>

record builder_state =
  grid_of :: grid
  coord_to_bus :: "real \<times> real \<rightharpoonup> int"
  bus_counter :: int
  line_idx :: nat

definition init_state :: builder_state where
  "init_state = \<lparr>grid_of = empty_grid, coord_to_bus = Map.empty, bus_counter = 0, line_idx = 0\<rparr>"

text \<open>The loop over the coordinates of one feature; \<open>line_bus_ids\<close> is accumulated.\<close>

fun get_or_create_buses ::
    "float_ops \<Rightarrow> pyfloat \<Rightarrow> real list list \<Rightarrow> builder_state \<Rightarrow> int list
     \<Rightarrow> builder_state \<times> int list" where
  "get_or_create_buses ops voltage [] st line_bus_ids = (st, line_bus_ids)"
| "get_or_create_buses ops voltage (coord # rest) st line_bus_ids =
     (if length coord < 2 then get_or_create_buses ops voltage rest st line_bus_ids
      else (let lon = coord ! 0; lat = coord ! 1;
                key = (round4 ops lon, round4 ops lat)
            in (case coord_to_bus st key of
                  Some bid \<Rightarrow> get_or_create_buses ops voltage rest st (line_bus_ids @ [bid])
                | None \<Rightarrow>
                    (let bid = bus_counter st;
                         gr = grid_of st;
                         st' = st\<lparr>coord_to_bus := (coord_to_bus st)(key \<mapsto> bid),
                                 grid_of := gr\<lparr>bus_geo := (bus_geo gr)(bid \<mapsto> (lon, lat)),
                                              bus_voltage := (bus_voltage gr)(bid \<mapsto> voltage),
                                              G := add_node (G gr) bid\<rparr>,
                                 bus_counter := bid + 1\<rparr>
                     in get_or_create_buses ops voltage rest st' (line_bus_ids @ [bid])))))"

text \<open>
  The loop over the consecutive pairs of \<open>line_bus_ids\<close>; \<open>i\<close> is the position of the
  pair. \<open>bus_geo[fb]\<close> raises \<open>KeyError\<close> for a bus without a position.
\<close>

fun create_edges ::
    "float_ops \<Rightarrow> string \<Rightarrow> pyfloat \<Rightarrow> string \<Rightarrow> int list \<Rightarrow> nat \<Rightarrow> builder_state
     \<Rightarrow> error + builder_state" where
  "create_edges ops feat_id voltage ptype (fb # tb # rest) i st =
     (if fb = tb then create_edges ops feat_id voltage ptype (tb # rest) (i + 1) st
      else (case (bus_geo (grid_of st) fb, bus_geo (grid_of st) tb) of
              (Some geo_fb, Some geo_tb) \<Rightarrow>
                (let d = haversine ops (snd geo_fb) (fst geo_fb) (snd geo_tb) (fst geo_tb);
                     len = (if d < 0.001 then 0.01 else d);
                     a = line_idx st;
                     line_info = \<lparr>idx = int a, from_bus = fb, to_bus = tb, voltage_kv = voltage,
                        name = line_name ops feat_id i voltage, power_type = ptype,
                        length_km = len, in_service = True\<rparr>;
                     gr = grid_of st;
                     st' = st\<lparr>grid_of := gr\<lparr>G := add_edge (G gr) fb tb,
                                              line_data := (line_data gr)((fb, tb) \<mapsto> a),
                                              line_list := line_list gr @ [a],
                                              line_store := (line_store gr)(a := line_info)\<rparr>,
                             line_idx := a + 1\<rparr>
                 in create_edges ops feat_id voltage ptype (tb # rest) (i + 1) st')
            | _ \<Rightarrow> Inl KeyError))"
| "create_edges ops feat_id voltage ptype ids i st = Inr st"

text \<open>The loop of step 1 over the features; \<open>feat_i\<close> is the position of the feature.\<close>

fun process_features ::
    "float_ops \<Rightarrow> line_feat list \<Rightarrow> nat \<Rightarrow> builder_state \<Rightarrow> error + builder_state" where
  "process_features ops [] feat_i st = Inr st"
| "process_features ops (feat # rest) feat_i st =
     (let voltage = parse_voltage_kv ops (case lf_voltage feat of None \<Rightarrow> [] | Some s \<Rightarrow> s);
          ptype = (case lf_power feat of None \<Rightarrow> ''line'' | Some p \<Rightarrow> p);
          feat_id = (case lf_id feat of None \<Rightarrow> default_id ops feat_i | Some s \<Rightarrow> s)
      in if length (lf_coords feat) < 2 then process_features ops rest (feat_i + 1) st
         else (case get_or_create_buses ops voltage (lf_coords feat) st [] of
                 (st1, line_bus_ids) \<Rightarrow>
                   (case create_edges ops feat_id voltage ptype line_bus_ids 0 st1 of
                      Inl e \<Rightarrow> Inl e
                    | Inr st2 \<Rightarrow> process_features ops rest (feat_i + 1) st2)))"

subsection \<open>Connected components\<close>

text \<open>
  \<open>is_connected\<close> compares the number of nodes reached from the first node with the
  number of nodes; it raises on the graph without nodes. \<open>connected_components\<close>
  yields, for each node in order that is not in a component yielded before, the set of
  the nodes reachable from it. A component is kept as the list of its nodes, without
  repetition.
\<close>

definition is_connected :: "nxgraph \<Rightarrow> error + bool" where
  "is_connected gr =
     (case nodes gr of
        [] \<Rightarrow> Inl NetworkXPointlessConcept
      | n # ns \<Rightarrow> Inr (length (dfs_loop gr [nbrs gr n] [n]) = length gr))"

fun components_loop :: "nxgraph \<Rightarrow> int list \<Rightarrow> int list \<Rightarrow> int list list" where
  "components_loop gr [] seen = []"
| "components_loop gr (v # vs) seen =
     (if v \<in> set seen then components_loop gr vs seen
      else (let c = dfs_loop gr [nbrs gr v] [v]
            in c # components_loop gr vs (seen @ c)))"

definition connected_components :: "nxgraph \<Rightarrow> int list list" where
  "connected_components gr = components_loop gr (nodes gr) []"

text \<open>\<open>max(components, key=len)\<close>: the first of the components of greatest size.\<close>

definition max_by_len :: "int list list \<Rightarrow> int list" where
  "max_by_len cs = fold (\<lambda>c best. if length best < length c then c else best) (tl cs) (hd cs)"

text \<open>The re-indexing loop \<open>for i, line in enumerate(grid.line_list): line['idx'] = i\<close>.\<close>

fun reindex :: "nat list \<Rightarrow> nat \<Rightarrow> (nat \<Rightarrow> line) \<Rightarrow> (nat \<Rightarrow> line)" where
  "reindex [] i st = st"
| "reindex (a # as) i st = reindex as (i + 1) (st(a := (st a)\<lparr>idx := int i\<rparr>))"

text \<open>Step 2 when the graph is not connected.\<close>

definition keep_largest :: "grid \<Rightarrow> grid" where
  "keep_largest gr =
     (let components = connected_components (G gr);
          largest_cc = max_by_len components;
          removed_buses = filter (\<lambda>n. n \<notin> set largest_cc) (nodes (G gr));
          kept = filter (\<lambda>a. from_bus (line_store gr a) \<in> set largest_cc
                              \<and> to_bus (line_store gr a) \<in> set largest_cc) (line_list gr)
      in gr\<lparr>G := remove_nodes_from (G gr) removed_buses,
            bus_geo := (\<lambda>b. if b \<in> set removed_buses then None else bus_geo gr b),
            bus_voltage := (\<lambda>b. if b \<in> set removed_buses then None else bus_voltage gr b),
            line_list := kept,
            line_store := reindex kept 0 (line_store gr),
            line_data := (\<lambda>k. if fst k \<in> set largest_cc \<and> snd k \<in> set largest_cc
                                then line_data gr k else None)\<rparr>)"

subsection \<open>Source selection\<close>

text \<open>
  The loop of \<open>_find_best_source_bus\<close> over the substations, with \<open>best_bus\<close> and
  \<open>best_voltage\<close>. Indexing a polygon without rings, or a first ring point with fewer
  than two numbers, raises \<open>IndexError\<close>.
\<close>

fun best_source_loop ::
    "float_ops \<Rightarrow> grid \<Rightarrow> (real \<times> real \<rightharpoonup> int) \<Rightarrow> sub_feat list \<Rightarrow> int option \<Rightarrow> pyfloat
     \<Rightarrow> error + int option" where
  "best_source_loop ops gr c2b [] best_bus best_voltage = Inr best_bus"
| "best_source_loop ops gr c2b (feat # rest) best_bus best_voltage =
     (let voltage = parse_voltage_kv ops (case sf_voltage feat of None \<Rightarrow> [] | Some s \<Rightarrow> s);
          located = (case sf_geometry feat of
                       Polygon rings \<Rightarrow>
                         (case rings of
                            [] \<Rightarrow> Inl IndexError
                          | ring # _ \<Rightarrow>
                              (case ring of
                                 [] \<Rightarrow> Inr None
                               | p # _ \<Rightarrow> if length p < 2 then Inl IndexError
                                          else Inr (Some (p ! 0, p ! 1))))
                     | Point coords \<Rightarrow>
                         if length coords \<ge> 2 then Inr (Some (coords ! 0, coords ! 1))
                         else Inr None
                     | OtherGeometry \<Rightarrow> Inr None)
      in (case located of
            Inl e \<Rightarrow> Inl e
          | Inr None \<Rightarrow> best_source_loop ops gr c2b rest best_bus best_voltage
          | Inr (Some (lon, lat)) \<Rightarrow>
              (case c2b (round4 ops lon, round4 ops lat) of
                 None \<Rightarrow> best_source_loop ops gr c2b rest best_bus best_voltage
               | Some bus_id \<Rightarrow>
                   if bus_id \<in> set (nodes (G gr)) \<and> voltage > best_voltage
                   then best_source_loop ops gr c2b rest (Some bus_id) voltage
                   else best_source_loop ops gr c2b rest best_bus best_voltage)))"

definition find_best_source_bus ::
    "float_ops \<Rightarrow> grid \<Rightarrow> sub_feat list \<Rightarrow> (real \<times> real \<rightharpoonup> int) \<Rightarrow> error + int" where
  "find_best_source_bus ops gr substation_features c2b =
     (case best_source_loop ops gr c2b substation_features None (Finite 0) of
        Inl e \<Rightarrow> Inl e
      | Inr (Some best_bus) \<Rightarrow> Inr best_bus
      | Inr None \<Rightarrow> (case nodes (G gr) of [] \<Rightarrow> Inl IndexError | n # _ \<Rightarrow> Inr n))"

subsection \<open>build\_grid\_from\_geojson\<close>

text \<open>The slice \<open>xs[:m]\<close>; a negative \<open>m\<close> counts from the end.\<close>

definition slice_to :: "'a list \<Rightarrow> int \<Rightarrow> 'a list" where
  "slice_to xs m = (if 0 \<le> m then take (nat m) xs else take (length xs - nat (- m)) xs)"

definition build_grid_from_geojson ::
    "float_ops \<Rightarrow> classified_features \<Rightarrow> int \<Rightarrow> error + grid" where
  "build_grid_from_geojson ops cf max_lines =
     (let all_line_feats = slice_to (lines cf) max_lines @ slice_to (minor_lines cf) 100
                             @ slice_to (cables cf) 100
      in (case process_features ops all_line_feats 0 init_state of
            Inl e \<Rightarrow> Inl e
          | Inr st \<Rightarrow>
              if bus_counter st = 0 then Inr (grid_of st)
              else (case is_connected (G (grid_of st)) of
                      Inl e \<Rightarrow> Inl e
                    | Inr conn \<Rightarrow>
                        (let gr = (if \<not> conn then keep_largest (grid_of st) else grid_of st)
                         in (case find_best_source_bus ops gr (substations cf) (coord_to_bus st) of
                               Inl e \<Rightarrow> Inl e
                             | Inr b \<Rightarrow> Inr (gr\<lparr>ext_grid_bus := b\<rparr>))))))"

text \<open>\<open>num_buses\<close> and \<open>num_lines\<close> of \<open>GridNetwork\<close>.\<close>

definition num_buses :: "grid \<Rightarrow> nat" where
  "num_buses g = number_of_nodes (G g)"

definition num_lines :: "grid \<Rightarrow> nat" where
  "num_lines g = number_of_edges (G g)"

subsection \<open>Invariants of the builder\<close>

text \<open>The endpoint pairs of all the lines of a grid, in service or not.\<close>

definition line_edges :: "grid \<Rightarrow> (int \<times> int) set" where
  "line_edges g = {(from_bus l, to_bus l) | l. l \<in> set (lines_of g)}"

text \<open>
  What holds of the local state throughout step 1: the buses are numbered from 0 up to
  the counter, the graph has exactly the lines as edges, and the line objects are
  numbered in creation order and in service.
\<close>

definition builder_inv :: "builder_state \<Rightarrow> bool" where
  "builder_inv st =
     (nx_graph (G (grid_of st))
      \<and> 0 \<le> bus_counter st
      \<and> set (nodes (G (grid_of st))) = {0..<bus_counter st}
      \<and> (\<forall>k b. coord_to_bus st k = Some b \<longrightarrow> 0 \<le> b \<and> b < bus_counter st)
      \<and> adjacent (G (grid_of st)) = line_edges (grid_of st) \<union> (line_edges (grid_of st))\<inverse>
      \<and> line_list (grid_of st) = [0..<line_idx st]
      \<and> (\<forall>a < line_idx st. idx (line_store (grid_of st) a) = int a
                             \<and> in_service (line_store (grid_of st) a)
                             \<and> from_bus (line_store (grid_of st) a)
                                   \<noteq> to_bus (line_store (grid_of st) a)))"

text \<open>
  What holds of the grid after each step of the builder: \<open>G\<close> is a networkx graph on
  non-negative bus numbers, it has exactly the lines as edges, the line objects of
  \<open>line_list\<close> are in the order of their creation, the line at position \<open>i\<close> carries
  the index \<open>i\<close>, and every line is in service and joins two different buses.
\<close>

definition lines_match :: "grid \<Rightarrow> bool" where
  "lines_match g =
     (nx_graph (G g)
      \<and> (\<forall>n \<in> set (nodes (G g)). 0 \<le> n)
      \<and> adjacent (G g) = line_edges g \<union> (line_edges g)\<inverse>
      \<and> distinct (line_list g) \<and> sorted (line_list g)
      \<and> (\<forall>i < length (line_list g). idx (line_store g (line_list g ! i)) = int i)
      \<and> (\<forall>l \<in> set (lines_of g). in_service l \<and> from_bus l \<noteq> to_bus l))"

text \<open>
  What holds of every grid the builder returns: the above, and a grid with a node has
  its source among the nodes and every node reachable from it.
\<close>

definition built_inv :: "grid \<Rightarrow> bool" where
  "built_inv g =
     (lines_match g
      \<and> (nodes (G g) \<noteq> [] \<longrightarrow>
            ext_grid_bus g \<in> set (nodes (G g)) \<and> connected_from (G g) (ext_grid_bus g)))"

section \<open>The floating-point operations over the reals\<close>

text \<open>
  \<open>_haversine\<close> and \<open>round(x, 4)\<close> as the source writes them, computed over the reals
  instead of doubles. \<open>round\<close> rounds to the nearest multiple of \<open>1/10000\<close>, a tie going
  to the even one. The name of a line keeps the feature identifier only, number
  formatting being left out. \<open>to_double\<close> does not round, and no code point from 128
  on is a digit: the operations serve on ASCII voltage strings that denote integers
  below \<open>2 ^ 53\<close>, which doubles hold exactly.
\<close>

definition radians :: "real \<Rightarrow> real" where
  "radians x = x * pi / 180"

definition atan2 :: "real \<Rightarrow> real \<Rightarrow> real" where
  "atan2 y x =
     (if 0 < x then arctan (y / x)
      else if x < 0 \<and> 0 \<le> y then arctan (y / x) + pi
      else if x < 0 then arctan (y / x) - pi
      else if 0 < y then pi / 2
      else if y < 0 then - pi / 2
      else 0)"

definition haversine_real :: "real \<Rightarrow> real \<Rightarrow> real \<Rightarrow> real \<Rightarrow> real" where
  "haversine_real lat1 lon1 lat2 lon2 =
     (let R = 6371;
          dlat = radians (lat2 - lat1);
          dlon = radians (lon2 - lon1);
          a = (sin (dlat / 2))\<^sup>2 + cos (radians lat1) * cos (radians lat2) * (sin (dlon / 2))\<^sup>2
      in R * 2 * atan2 (sqrt a) (sqrt (1 - a)))"

definition py_round4 :: "real \<Rightarrow> real" where
  "py_round4 x =
     (let y = x * 10000; f = \<lfloor>y\<rfloor>; r = y - of_int f
      in of_int (if r < 1 / 2 then f else if 1 / 2 < r then f + 1
                 else if even f then f else f + 1) / 10000)"

definition exact_ops :: float_ops where
  "exact_ops = \<lparr>round4 = py_round4, haversine = haversine_real,
     line_name = (\<lambda>feat_id i voltage. ''L_'' @ feat_id),
     default_id = (\<lambda>feat_i. ''feat''), to_double = Finite,
     uni_isdigit = (\<lambda>c. False), uni_decimal = (\<lambda>c. None)\<rparr>"

section \<open>Three inputs of the builder\<close>

text \<open>One line of two points on the equator, 0.00006 degrees (about 6.7 m) apart.\<close>

definition close_points :: classified_features where
  "close_points = \<lparr>lines = [\<lparr>lf_id = Some ''w1'', lf_voltage = Some (str ''11000''), lf_power = None,
        lf_coords = [[0, 0], [0.00006, 0]]\<rparr>],
     minor_lines = [], cables = [], substations = []\<rparr>"

text \<open>One line that goes from a point to another and back.\<close>

definition back_and_forth :: classified_features where
  "back_and_forth = \<lparr>lines = [\<lparr>lf_id = Some ''w1'', lf_voltage = Some (str ''11000''), lf_power = None,
        lf_coords = [[0, 0], [1, 0], [0, 0]]\<rparr>],
     minor_lines = [], cables = [], substations = []\<rparr>"

text \<open>
  Two islands: a line of two points, then a line of three points elsewhere, and a
  substation on the middle point of the second line.
\<close>

definition two_islands :: classified_features where
  "two_islands = \<lparr>lines = [\<lparr>lf_id = Some ''w1'', lf_voltage = Some (str ''11000''), lf_power = None,
        lf_coords = [[5, 0], [6, 0]]\<rparr>,
      \<lparr>lf_id = Some ''w2'', lf_voltage = Some (str ''33000''), lf_power = None,
        lf_coords = [[0, 0], [1, 0], [2, 0]]\<rparr>],
     minor_lines = [], cables = [],
     substations = [\<lparr>sf_voltage = Some (str ''33000''), sf_geometry = Point [1, 0]\<rparr>]\<rparr>"

text \<open>The number of line records and \<open>num_lines\<close> of the grid a build returns.\<close>

definition records_and_edges :: "error + grid \<Rightarrow> error + nat \<times> nat" where
  "records_and_edges r =
     (case r of Inl e \<Rightarrow> Inl e | Inr g \<Rightarrow> Inr (length (line_list g), num_lines g))"

section \<open>The order of Python floats\<close>

lemma less_pyfloat_simps [simp]:
  "Finite x < Finite y \<longleftrightarrow> x < y" "Finite x < Infinity" "\<not> Infinity < a"
  by (cases a; auto simp: less_pyfloat_def)+

section \<open>Properties of set\_line\_in\_service and trigger\_fault\<close>

lemma identify_from_none:
  "\<forall>s \<in> set ss. r s \<noteq> Some 0 \<Longrightarrow> identify_from r ss i = - 1"
  by (induction ss arbitrary: i) (auto split: option.splits)

lemma identify_from_first:
  "k < length ss \<Longrightarrow> r (ss ! k) = Some 0 \<Longrightarrow> \<forall>j < k. r (ss ! j) \<noteq> Some 0
   \<Longrightarrow> identify_from r ss i = i + int k"
proof (induction ss arbitrary: i k)
  case Nil
  then show ?case by simp
next
  case (Cons s ss)
  show ?case
  proof (cases k)
    case 0
    with Cons.prems show ?thesis by simp
  next
    case (Suc m)
    from Cons.prems Suc have m: "m < length ss" "r (ss ! m) = Some 0" by simp_all
    from Cons.prems(3) Suc have before: "\<forall>j < m. r (ss ! j) \<noteq> Some 0" by auto
    from Cons.prems(3) Suc have "r s \<noteq> Some 0" by auto
    then have "(case r s of None \<Rightarrow> 1 | Some v \<Rightarrow> v) \<noteq> (0::int)"
      by (auto split: option.splits)
    with Cons.IH [OF m before, of "i + 1"] Suc show ?thesis by simp
  qed
qed

text \<open>
  C4. \<open>identify_faulty_block\<close> returns the index of the first sensor, in list order,
  whose reading is false (0), and the distinguished result \<open>-1\<close> when no sensor reads
  false, in particular when every sensor's reading is true.
\<close>

theorem identify_faulty_block_first_dead:
  "(k < length sensors \<and> readings (sensors ! k) = Some 0
      \<and> (\<forall>j < k. readings (sensors ! j) \<noteq> Some 0)
      \<longrightarrow> identify_faulty_block readings sensors blocks = int k)
   \<and> ((\<forall>s \<in> set sensors. readings s \<noteq> Some 0)
      \<longrightarrow> identify_faulty_block readings sensors blocks = - 1)"
  using identify_from_first [of k sensors readings 0] identify_from_none [of sensors readings 0]
  by (simp add: identify_faulty_block_def)

theorem identify_faulty_block_first_dead_witness:
  "identify_faulty_block [2 \<mapsto> 1, 5 \<mapsto> 0, 8 \<mapsto> 0] [2, 5, 8] [[0, 1, 2], [3, 4, 5], [6, 7, 8]] = 1
   \<and> identify_faulty_block [2 \<mapsto> 1, 5 \<mapsto> 1, 8 \<mapsto> 1] [2, 5, 8] [[0, 1, 2], [3, 4, 5], [6, 7, 8]] = - 1"
proof -
  let ?bs = "[[0, 1, 2], [3, 4, 5], [6, 7, 8 :: int]]"
  have a: "(1::nat) < length [2, 5, 8 :: int]
      \<and> [2 \<mapsto> 1, 5 \<mapsto> 0, 8 \<mapsto> 0 :: int] ([2, 5, 8 :: int] ! 1) = Some 0
      \<and> (\<forall>j < (1::nat). [2 \<mapsto> 1, 5 \<mapsto> 0, 8 \<mapsto> 0 :: int] ([2, 5, 8 :: int] ! j) \<noteq> Some 0)"
    by simp
  have b: "\<forall>s \<in> set [2, 5, 8 :: int]. [2 \<mapsto> 1, 5 \<mapsto> 1, 8 \<mapsto> 1 :: int] s \<noteq> Some 0"
    by simp
  from a identify_faulty_block_first_dead
         [of 1 "[2, 5, 8]" "[2 \<mapsto> 1, 5 \<mapsto> 0, 8 \<mapsto> 0]" ?bs]
  have "identify_faulty_block [2 \<mapsto> 1, 5 \<mapsto> 0, 8 \<mapsto> 0] [2, 5, 8] ?bs = 1"
    by simp
  moreover from b identify_faulty_block_first_dead
         [of 0 "[2, 5, 8]" "[2 \<mapsto> 1, 5 \<mapsto> 1, 8 \<mapsto> 1]" ?bs]
  have "identify_faulty_block [2 \<mapsto> 1, 5 \<mapsto> 1, 8 \<mapsto> 1] [2, 5, 8] ?bs = - 1"
    by blast
  ultimately show ?thesis by simp
qed

text \<open>
  C6. For an index outside \<open>[0, len(line_list))\<close> \<open>trigger_fault\<close> reports the
  out-of-range error and returns the grid unchanged; for an index inside it takes that
  line out of service, changes nothing else, and returns the snapshot with the index,
  the endpoints, the name and the voltage of the line.
\<close>

theorem trigger_fault_spec:
  "((i < 0 \<or> int (length (line_list g)) \<le> i) \<longrightarrow> trigger_fault g i = (Inl IndexOutOfRange, g))
   \<and> ((0 \<le> i \<and> i < int (length (line_list g))) \<longrightarrow>
        (let a = line_list g ! nat i; l = line_store g a
         in trigger_fault g i =
              (Inr \<lparr>fi_line_idx = i, fi_from_bus = from_bus l, fi_to_bus = to_bus l,
                    fi_line_name = name l, fi_voltage_kv = voltage_kv l\<rparr>,
               g\<lparr>line_store := (line_store g)(a := l\<lparr>in_service := False\<rparr>)\<rparr>)))"
  by (auto simp: trigger_fault_def Let_def)

theorem trigger_fault_spec_witness:
  "trigger_fault path_grid 7 = (Inl IndexOutOfRange, path_grid)
   \<and> trigger_fault path_grid (- 1) = (Inl IndexOutOfRange, path_grid)
   \<and> fst (trigger_fault path_grid 2) =
        Inr \<lparr>fi_line_idx = 2, fi_from_bus = 2, fi_to_bus = 3, fi_line_name = ''L'',
             fi_voltage_kv = Finite 11\<rparr>
   \<and> \<not> in_service (line_store (snd (trigger_fault path_grid 2)) 2)"
proof -
  have len: "length (line_list path_grid) = 4" by (simp add: path_grid_def)
  have a: "line_list path_grid ! nat 2 = 2" by (simp add: path_grid_def)
  have l: "line_store path_grid 2 = path_line 2" by (simp add: path_grid_def)
  have "trigger_fault path_grid 7 = (Inl IndexOutOfRange, path_grid)"
    using trigger_fault_spec [of 7 path_grid] len by simp
  moreover have "trigger_fault path_grid (- 1) = (Inl IndexOutOfRange, path_grid)"
    using trigger_fault_spec [of "- 1" path_grid] by simp
  moreover have "trigger_fault path_grid 2 =
      (Inr \<lparr>fi_line_idx = 2, fi_from_bus = 2, fi_to_bus = 3, fi_line_name = ''L'',
            fi_voltage_kv = Finite 11\<rparr>,
       path_grid\<lparr>line_store := (line_store path_grid)(2 := (path_line 2)\<lparr>in_service := False\<rparr>)\<rparr>)"
    using trigger_fault_spec [of 2 path_grid] len a l by (simp add: Let_def path_line_def)
  ultimately show ?thesis by simp
qed

text \<open>
  C10. \<open>set_line_in_service\<close> is total over the integers: for an index outside
  \<open>[0, len(line_list))\<close> it returns the grid unchanged; for an index inside it changes
  the \<open>in_service\<close> field of that one record and nothing else.
\<close>

theorem set_line_in_service_spec:
  "((i < 0 \<or> int (length (line_list g)) \<le> i) \<longrightarrow> set_line_in_service g i b = g)
   \<and> ((0 \<le> i \<and> i < int (length (line_list g))) \<longrightarrow>
        (let g' = set_line_in_service g i b; a = line_list g ! nat i
         in G g' = G g \<and> bus_geo g' = bus_geo g \<and> bus_voltage g' = bus_voltage g
            \<and> line_data g' = line_data g \<and> line_list g' = line_list g
            \<and> ext_grid_bus g' = ext_grid_bus g
            \<and> (\<forall>a'. a' \<noteq> a \<longrightarrow> line_store g' a' = line_store g a')
            \<and> line_store g' a = (line_store g a)\<lparr>in_service := b\<rparr>))"
  by (auto simp: set_line_in_service_def Let_def)

theorem set_line_in_service_spec_witness:
  "set_line_in_service path_grid 4 False = path_grid
   \<and> set_line_in_service path_grid (- 3) False = path_grid
   \<and> line_store (set_line_in_service path_grid 1 False) 1 = (path_line 1)\<lparr>in_service := False\<rparr>
   \<and> line_store (set_line_in_service path_grid 1 False) 2 = path_line 2
   \<and> G (set_line_in_service path_grid 1 False) = G path_grid"
proof -
  have len: "length (line_list path_grid) = 4" by (simp add: path_grid_def)
  have a: "line_list path_grid ! nat 1 = 1" by (simp add: path_grid_def)
  have l: "line_store path_grid = path_line" by (simp add: path_grid_def)
  have "set_line_in_service path_grid 4 False = path_grid"
    using set_line_in_service_spec [of 4 path_grid False] len by simp
  moreover have "set_line_in_service path_grid (- 3) False = path_grid"
    using set_line_in_service_spec [of "- 3" path_grid False] by simp
  moreover have "line_store (set_line_in_service path_grid 1 False) 1
        = (path_line 1)\<lparr>in_service := False\<rparr>
      \<and> line_store (set_line_in_service path_grid 1 False) 2 = path_line 2
      \<and> G (set_line_in_service path_grid 1 False) = G path_grid"
    using set_line_in_service_spec [of 1 path_grid False] len a l by (simp add: Let_def)
  ultimately show ?thesis by simp
qed

section \<open>Properties of parse\_voltage\_kv\<close>

lemmas pv_defs = parse_voltage_kv_def isdigit_py_def isdigit_char_def decimal_char_def
  strip_py_def isspace_py_def float_py_def digits_value_def max_py_def str_def
  less_pyfloat_def

lemma max_py_Max: "vs \<noteq> [] \<Longrightarrow> max_py vs = Max (set vs)"
  by (cases vs) (simp_all add: max_py_def Max.set_eq_fold [symmetric])

lemma split_py_no_sep: "sep \<notin> set t \<Longrightarrow> split_py sep t = [t]"
  by (induction t) auto

lemma split_py_append: "sep \<notin> set t \<Longrightarrow> split_py sep (t @ sep # rest) = t # split_py sep rest"
  by (induction t) auto

lemma split_join:
  "ts \<noteq> [] \<Longrightarrow> \<forall>t \<in> set ts. sep \<notin> set t \<Longrightarrow> split_py sep (join_py sep ts) = ts"
proof (induction sep ts rule: join_py.induct)
  case (1 sep)
  then show ?case by simp
next
  case (2 sep t)
  then show ?case by (simp add: split_py_no_sep)
next
  case (3 sep t v va)
  then show ?case by (simp add: split_py_append)
qed

lemma dropWhile_keeps: "x \<in> set xs \<Longrightarrow> \<not> P x \<Longrightarrow> x \<in> set (dropWhile P xs)"
  by (induction xs) auto

lemma strip_py_keeps: "c \<in> set t \<Longrightarrow> \<not> isspace_py c \<Longrightarrow> c \<in> set (strip_py t)"
  unfolding strip_py_def by (simp add: dropWhile_keeps)

lemma strip_py_subset: "set (strip_py t) \<subseteq> set t"
  unfolding strip_py_def by (auto dest!: set_dropWhileD)

lemma strip_py_core:
  assumes "list_all isspace_py ws1" "list_all isspace_py ws2"
    and "core \<noteq> []" "\<not> isspace_py (hd core)" "\<not> isspace_py (last core)"
  shows "strip_py (ws1 @ core @ ws2) = core"
proof -
  have "dropWhile isspace_py (ws1 @ core @ ws2) = dropWhile isspace_py (core @ ws2)"
    by (rule dropWhile_append2) (use assms(1) in \<open>simp add: list_all_iff\<close>)
  also have "\<dots> = core @ ws2"
    using assms(3,4) by (cases core) simp_all
  finally have a: "dropWhile isspace_py (ws1 @ core @ ws2) = core @ ws2" .
  have "dropWhile isspace_py (rev ws2 @ rev core) = dropWhile isspace_py (rev core)"
    by (rule dropWhile_append2) (use assms(2) in \<open>simp add: list_all_iff\<close>)
  also have "\<dots> = rev core"
    using assms(3,5) by (cases core rule: rev_cases) simp_all
  finally have b: "dropWhile isspace_py (rev ws2 @ rev core) = rev core" .
  show ?thesis unfolding strip_py_def a by (simp add: b)
qed

lemma other_rejected:
  assumes "wf_token ops (Other t)"
  shows "\<not> isdigit_py ops (filter (\<lambda>c. c \<noteq> 46) (strip_py t))"
proof -
  from assms consider
      (a) c where "c \<in> set t" "\<not> isspace_py c" "\<not> isdigit_char ops c" "c \<noteq> 46"
    | (b) "\<forall>c \<in> set t. \<not> isdigit_char ops c"
    by (auto simp: list_ex_iff list_all_iff)
  then show ?thesis
  proof cases
    case a
    then have "c \<in> set (filter (\<lambda>c. c \<noteq> 46) (strip_py t))" by (simp add: strip_py_keeps)
    with a(3) show ?thesis by (auto simp: isdigit_py_def list_all_iff)
  next
    case b
    show ?thesis
    proof
      assume d: "isdigit_py ops (filter (\<lambda>c. c \<noteq> 46) (strip_py t))"
      then have "filter (\<lambda>c. c \<noteq> 46) (strip_py t) \<noteq> []" by (simp add: isdigit_py_def)
      then obtain c where "c \<in> set (filter (\<lambda>c. c \<noteq> 46) (strip_py t))"
        using hd_in_set by blast
      with d have "c \<in> set t" "isdigit_char ops c"
        using strip_py_subset [of t] by (auto simp: isdigit_py_def list_all_iff)
      with b show False by simp
    qed
  qed
qed


lemma digit_char:
  assumes "d \<le> 9"
  shows "\<not> isspace_py (48 + d)" "isdigit_char ops (48 + d)" "decimal_char ops (48 + d) = Some d"
    "48 + d \<noteq> 46" "48 + d \<noteq> 59"
  using assms by (auto simp: isspace_py_def isdigit_char_def decimal_char_def)

lemma digits_value_foldl:
  "list_all (\<lambda>d. d \<le> 9) ds \<Longrightarrow>
   foldl (\<lambda>n c. 10 * n + (case decimal_char ops c of None \<Rightarrow> 0 | Some d \<Rightarrow> d)) n
         (map (\<lambda>d. 48 + d) ds)
     = n * 10 ^ length ds + digits_nat ds"
proof (induction ds arbitrary: n)
  case Nil
  then show ?case by simp
next
  case (Cons d ds)
  then have d: "decimal_char ops (48 + d) = Some d" and ds: "list_all (\<lambda>d. d \<le> 9) ds"
    by (simp_all add: digit_char)
  let ?F = "\<lambda>n c. 10 * n + (case decimal_char ops c of None \<Rightarrow> 0 | Some d \<Rightarrow> d)"
  have "foldl ?F n (map (\<lambda>d. 48 + d) (d # ds)) = foldl ?F (10 * n + d) (map (\<lambda>d. 48 + d) ds)"
    by (simp add: d)
  also have "\<dots> = (10 * n + d) * 10 ^ length ds + digits_nat ds"
    by (rule Cons.IH [OF ds])
  also have "\<dots> = n * 10 ^ length (d # ds) + digits_nat (d # ds)"
    by (simp add: algebra_simps)
  finally show ?case .
qed

lemma digits_value_map:
  "list_all (\<lambda>d. d \<le> 9) ds \<Longrightarrow> digits_value ops (map (\<lambda>d. 48 + d) ds) = digits_nat ds"
  unfolding digits_value_def by (simp add: digits_value_foldl)

lemma numeral_accepted:
  assumes wf: "wf_token ops (Numeral ws1 ip fp ws2)"
  shows "isdigit_py ops (filter (\<lambda>c. c \<noteq> 46) (strip_py (token_text (Numeral ws1 ip fp ws2))))"
    and "float_py ops (strip_py (token_text (Numeral ws1 ip fp ws2)))
           = map_option (to_double ops) (token_value (Numeral ws1 ip fp ws2))"
proof -
  define f where "f = (case fp of None \<Rightarrow> [] | Some f \<Rightarrow> f)"
  define dot where "dot = (case fp of None \<Rightarrow> [] | Some f \<Rightarrow> [46::nat])"
  define core where "core = map (\<lambda>d. 48 + d) ip @ dot @ map (\<lambda>d. 48 + d) f"
  have tt: "token_text (Numeral ws1 ip fp ws2) = ws1 @ core @ ws2"
    by (simp add: core_def dot_def f_def split: option.splits)
  from wf have ws: "list_all isspace_py ws1" "list_all isspace_py ws2"
    and ip: "list_all (\<lambda>d. d \<le> 9) ip" and fd: "list_all (\<lambda>d. d \<le> 9) f"
    and ne: "ip \<noteq> [] \<or> f \<noteq> []"
    by (auto simp: f_def split: option.splits)
  have dot: "dot = [] \<or> dot = [46]" by (simp add: dot_def split: option.splits)
  have sp46: "\<not> isspace_py 46" by (simp add: isspace_py_def)
  have nsp: "\<forall>c \<in> set core. \<not> isspace_py c"
    using ip fd dot sp46 by (auto simp: core_def list_all_iff digit_char)
  have cne: "core \<noteq> []" using ne by (auto simp: core_def)
  have st: "strip_py (token_text (Numeral ws1 ip fp ws2)) = core"
    unfolding tt using ws cne nsp by (intro strip_py_core) simp_all
  have fl: "filter (\<lambda>c. c \<noteq> 46) core = map (\<lambda>d. 48 + d) (ip @ f)"
    using ip fd dot by (auto simp: core_def list_all_iff digit_char filter_id_conv)
  show "isdigit_py ops (filter (\<lambda>c. c \<noteq> 46) (strip_py (token_text (Numeral ws1 ip fp ws2))))"
    unfolding st fl isdigit_py_def using ip fd ne by (auto simp: list_all_iff digit_char)
  have all: "list_all (\<lambda>c. decimal_char ops c \<noteq> None \<or> c = 46) core"
    using ip fd dot by (auto simp: core_def list_all_iff digit_char)
  have f46: "filter (\<lambda>c. c = 46) core = dot"
    using ip fd dot by (auto simp: core_def list_all_iff digit_char filter_empty_conv)
  have one: "length (filter (\<lambda>c. c = 46) core) \<le> 1" unfolding f46 using dot by auto
  have ex: "list_ex (\<lambda>c. decimal_char ops c \<noteq> None) core"
    using ip fd ne by (cases ip; cases f) (auto simp: core_def list_ex_iff digit_char)
  have ipn: "\<forall>c \<in> set (map (\<lambda>d. 48 + d) ip). c \<noteq> 46"
    using ip by (auto simp: list_all_iff digit_char)
  have tw: "takeWhile (\<lambda>c. c \<noteq> 46) core = map (\<lambda>d. 48 + d) ip"
  proof (cases fp)
    case None
    then have "core = map (\<lambda>d. 48 + d) ip" by (simp add: core_def dot_def f_def)
    then show ?thesis using ipn by (simp add: takeWhile_eq_all_conv)
  next
    case (Some a)
    then have "core = map (\<lambda>d. 48 + d) ip @ 46 # map (\<lambda>d. 48 + d) f"
      by (simp add: core_def dot_def f_def)
    then show ?thesis using ipn by (simp add: takeWhile_tail takeWhile_eq_all_conv)
  qed
  have dw: "drop 1 (dropWhile (\<lambda>c. c \<noteq> 46) core) = map (\<lambda>d. 48 + d) f"
  proof (cases fp)
    case None
    then have c: "core = map (\<lambda>d. 48 + d) ip" and f: "f = []"
      by (simp_all add: core_def dot_def f_def)
    have e: "dropWhile (\<lambda>c. c \<noteq> 46) (map (\<lambda>d. 48 + d) ip) = []"
      using ipn by (simp add: dropWhile_eq_Nil_conv)
    show ?thesis unfolding c f e by simp
  next
    case (Some a)
    then have c: "core = map (\<lambda>d. 48 + d) ip @ 46 # map (\<lambda>d. 48 + d) f"
      by (simp add: core_def dot_def f_def)
    have e: "dropWhile (\<lambda>c. c \<noteq> 46) (map (\<lambda>d. 48 + d) ip) = []"
      using ipn by (simp add: dropWhile_eq_Nil_conv)
    have "dropWhile (\<lambda>c. c \<noteq> 46) core = 46 # map (\<lambda>d. 48 + d) f"
      unfolding c by (subst dropWhile_append3) (simp_all add: e)
    then show ?thesis by simp
  qed
  have v: "token_value (Numeral ws1 ip fp ws2)
             = Some (real (digits_nat ip) + real (digits_nat f) / 10 ^ length f)"
    by (simp add: f_def split: option.splits)
  show "float_py ops (strip_py (token_text (Numeral ws1 ip fp ws2)))
           = map_option (to_double ops) (token_value (Numeral ws1 ip fp ws2))"
    unfolding st v float_py_def using all one ex
    by (simp add: tw dw digits_value_map ip fd del: One_nat_def)
qed

lemma wf_token_no_sep: "wf_token ops tok \<Longrightarrow> 59 \<notin> set (token_text tok)"
proof (cases tok)
  case (Numeral ws1 ip fp ws2)
  assume "wf_token ops tok"
  with Numeral show ?thesis
    by (auto simp: list_all_iff isspace_py_def split: option.splits)
next
  case (Other t)
  assume "wf_token ops tok"
  with Other show ?thesis by simp
qed

lemma parsed_values:
  "list_all (wf_token ops) toks \<Longrightarrow>
   those (map (\<lambda>p. float_py ops (strip_py p))
            (filter (\<lambda>p. isdigit_py ops (filter (\<lambda>c. c \<noteq> 46) (strip_py p)))
               (map token_text toks)))
     = Some (numeric_values ops toks)"
proof (induction toks)
  case Nil
  then show ?case by (simp add: numeric_values_def List.map_filter_simps)
next
  case (Cons tok toks)
  then have ih: "those (map (\<lambda>p. float_py ops (strip_py p))
            (filter (\<lambda>p. isdigit_py ops (filter (\<lambda>c. c \<noteq> 46) (strip_py p)))
               (map token_text toks))) = Some (numeric_values ops toks)"
    and wf: "wf_token ops tok" by simp_all
  show ?case
  proof (cases tok)
    case (Numeral ws1 ip fp ws2)
    with wf numeral_accepted [of ops ws1 ip fp ws2] ih show ?thesis
      by (simp add: numeric_values_def List.map_filter_simps del: token_text.simps wf_token.simps)
  next
    case (Other t)
    with wf other_rejected [of ops t] ih show ?thesis
      by (simp add: numeric_values_def List.map_filter_simps del: wf_token.simps)
  qed
qed

lemma parse_tokens:
  assumes wf: "list_all (wf_token ops) toks"
  shows "parse_voltage_kv ops (tokens_text toks) = voltage_amended ops toks"
proof (cases "toks = []")
  case True
  then show ?thesis
    by (simp add: tokens_text_def parse_voltage_kv_def voltage_amended_def numeric_values_def
        List.map_filter_simps)
next
  case False
  let ?s = "tokens_text toks"
  let ?vs = "numeric_values ops toks"
  have "\<forall>t \<in> set (map token_text toks). 59 \<notin> set t"
    using wf by (auto simp: list_all_iff wf_token_no_sep)
  with False have sp: "split_py 59 ?s = map token_text toks"
    unfolding tokens_text_def by (intro split_join) simp_all
  have th: "those (map (\<lambda>p. float_py ops (strip_py p))
                   (filter (\<lambda>p. isdigit_py ops (filter (\<lambda>c. c \<noteq> 46) (strip_py p)))
                      (split_py 59 ?s))) = Some ?vs"
    unfolding sp by (rule parsed_values [OF wf])
  have empty: "?vs = []" if "?s = []"
    using th unfolding that by (simp add: strip_py_def isdigit_py_def)
  have kv: "parse_voltage_kv ops ?s =
      (if ?s = [] then Finite 11
       else if ?vs = [] then Finite 11
       else (let max_v = max_py ?vs
             in if max_v > Finite 1000 then div_1000 ops max_v
                else if max_v > Finite 0 then max_v else Finite 11))"
    unfolding parse_voltage_kv_def th by simp
  show ?thesis
  proof (cases "?vs = []")
    case True
    then show ?thesis unfolding kv voltage_amended_def by simp
  next
    case ne: False
    with empty have "?s \<noteq> []" by blast
    with ne show ?thesis unfolding kv voltage_amended_def by (simp add: max_py_Max)
  qed
qed

lemma parse_voltage_examples:
  assumes "exact_integers ops"
  shows "parse_voltage_kv ops (str '''') = Finite 11"
    and "parse_voltage_kv ops (str ''400000'') = Finite 400"
    and "parse_voltage_kv ops (str ''11000;33000'') = Finite 33"
    and "parse_voltage_kv ops (str ''abc'') = Finite 11"
proof -
  have e: "to_double ops (real n) = Finite (real n)" if "n \<le> 2 ^ 53" for n :: nat
    using assms that by (simp add: exact_integers_def)
  have v: "to_double ops 400000 = Finite 400000" "to_double ops 400 = Finite 400"
    "to_double ops 11000 = Finite 11000" "to_double ops 33000 = Finite 33000"
    "to_double ops 33 = Finite 33"
    using e [of 400000] e [of 400] e [of 11000] e [of 33000] e [of 33] by simp_all
  show "parse_voltage_kv ops (str '''') = Finite 11" by (simp add: pv_defs)
  show "parse_voltage_kv ops (str ''400000'') = Finite 400" by (simp add: pv_defs v)
  show "parse_voltage_kv ops (str ''11000;33000'') = Finite 33" by (simp add: pv_defs v)
  show "parse_voltage_kv ops (str ''abc'') = Finite 11" by (simp add: pv_defs)
qed

text \<open>
  C8, as stated, fails: on the string \<open>0\<close> the only token is numeric and its maximum, 0,
  does not exceed 1000, so the specification gives 0; \<open>parse_voltage_kv\<close> returns 11.0.
\<close>

theorem parse_voltage_claimed_counterexample:
  "list_all (wf_token exact_ops) [Numeral [] [0] None []]
   \<and> tokens_text [Numeral [] [0] None []] = str ''0''
   \<and> parse_voltage_kv exact_ops (str ''0'') = Finite 11
   \<and> voltage_claimed exact_ops [Numeral [] [0] None []] = Finite 0"
  by (simp add: pv_defs tokens_text_def voltage_claimed_def numeric_values_def
      List.map_filter_simps exact_ops_def)

text \<open>
  C8, amended. With doubles that hold the integers up to \<open>2 ^ 53\<close> exactly, the four
  examples hold: the empty string and \<open>abc\<close> give 11.0, \<open>400000\<close> gives 400.0 and
  \<open>11000;33000\<close> gives 33.0. In general, let the string be tokens joined by \<open>;\<close>, each
  token a numeral (ASCII digits with at most one dot and one digit at least, possibly
  between whitespace) or a token to ignore (one with a character that is neither
  whitespace nor a digit nor a dot, or one without any digit). Without a numeral the
  result is 11.0. Otherwise let \<open>m\<close> be the maximum of the doubles nearest to the
  numerals: the result is \<open>m / 1000.0\<close> when \<open>m > 1000\<close>, \<open>m\<close> when \<open>0 < m \<le> 1000\<close>,
  and 11.0 when \<open>m = 0\<close>. This holds whatever the Unicode database calls a digit.
  Nothing is said of a token of digits and dots that is not such a numeral.
\<close>

theorem parse_voltage_kv_amended:
  "(exact_integers ops \<longrightarrow>
      parse_voltage_kv ops (str '''') = Finite 11
      \<and> parse_voltage_kv ops (str ''400000'') = Finite 400
      \<and> parse_voltage_kv ops (str ''11000;33000'') = Finite 33
      \<and> parse_voltage_kv ops (str ''abc'') = Finite 11)
   \<and> (list_all (wf_token ops) toks \<longrightarrow>
        parse_voltage_kv ops (tokens_text toks) = voltage_amended ops toks)"
  using parse_voltage_examples [of ops] parse_tokens [of ops toks] by blast

theorem parse_voltage_kv_amended_witness:
  "exact_integers exact_ops
   \<and> list_all (wf_token exact_ops)
        [Numeral [32] [1, 1, 0, 0, 0] None [], Other (str ''abc''),
         Numeral [] [3, 3, 0, 0, 0] (Some [0]) [32]]
   \<and> tokens_text [Numeral [32] [1, 1, 0, 0, 0] None [], Other (str ''abc''),
         Numeral [] [3, 3, 0, 0, 0] (Some [0]) [32]] = str '' 11000;abc;33000.0 ''
   \<and> parse_voltage_kv exact_ops (str '' 11000;abc;33000.0 '') = Finite 33
   \<and> parse_voltage_kv exact_ops (str ''400000'') = Finite 400"
proof -
  let ?toks = "[Numeral [32] [1, 1, 0, 0, 0] None [], Other (str ''abc''),
         Numeral [] [3, 3, 0, 0, 0] (Some [0]) [32]]"
  have e: "exact_integers exact_ops" by (simp add: exact_integers_def exact_ops_def)
  have wf: "list_all (wf_token exact_ops) ?toks"
    by (simp add: isspace_py_def isdigit_char_def str_def)
  have t: "tokens_text ?toks = str '' 11000;abc;33000.0 ''"
    by (simp add: tokens_text_def str_def)
  have a: "voltage_amended exact_ops ?toks = Finite 33"
    by (simp add: voltage_amended_def numeric_values_def List.map_filter_simps exact_ops_def)
  from parse_voltage_kv_amended [of exact_ops ?toks] e wf
  have "parse_voltage_kv exact_ops (str ''400000'') = Finite 400"
    and "parse_voltage_kv exact_ops (tokens_text ?toks) = voltage_amended exact_ops ?toks"
    by blast+
  with e wf t a show ?thesis by (simp only: simp_thms)
qed

section \<open>Correctness of the depth-first traversal\<close>

lemma stack_set_simps [simp]:
  "stack_set [] = {}"
  "stack_set (cs # stack) = set cs \<union> stack_set stack"
  by (simp_all add: stack_set_def)

lemma dfs_loop_mono: "set visited \<subseteq> set (dfs_loop gr stack visited)"
  by (induction gr stack visited rule: dfs_loop.induct) auto

lemma dfs_loop_stack: "stack_set stack \<subseteq> set (dfs_loop gr stack visited)"
proof (induction gr stack visited rule: dfs_loop.induct)
  case (1 gr visited)
  show ?case by simp
next
  case (2 gr stack visited)
  then show ?case by simp
next
  case (3 gr child children stack visited)
  show ?case
  proof (cases "child \<in> set visited")
    case True
    with 3 dfs_loop_mono [of visited gr "children # stack"] show ?thesis by auto
  next
    case False
    with 3 dfs_loop_mono [of "visited @ [child]" gr "nbrs gr child # children # stack"]
    show ?thesis by auto
  qed
qed

lemma dfs_loop_distinct: "distinct visited \<Longrightarrow> distinct (dfs_loop gr stack visited)"
  by (induction gr stack visited rule: dfs_loop.induct) auto

lemma dfs_loop_sound:
  "set (dfs_loop gr stack visited) \<subseteq> set visited \<union> (adjacent gr)\<^sup>* `` stack_set stack"
proof (induction gr stack visited rule: dfs_loop.induct)
  case (1 gr visited)
  show ?case by simp
next
  case (2 gr stack visited)
  then show ?case by simp
next
  case (3 gr child children stack visited)
  show ?case
  proof (cases "child \<in> set visited")
    case True
    with 3 show ?thesis by auto
  next
    case False
    have step: "(adjacent gr)\<^sup>* `` set (nbrs gr child) \<subseteq> (adjacent gr)\<^sup>* `` {child}"
    proof
      fix y assume "y \<in> (adjacent gr)\<^sup>* `` set (nbrs gr child)"
      then obtain x where x: "x \<in> set (nbrs gr child)" and xy: "(x, y) \<in> (adjacent gr)\<^sup>*"
        by auto
      from x have "(child, x) \<in> adjacent gr" by (simp add: adjacent_def)
      with xy show "y \<in> (adjacent gr)\<^sup>* `` {child}"
        by (auto intro: converse_rtrancl_into_rtrancl)
    qed
    from False 3 have "set (dfs_loop gr ((child # children) # stack) visited)
        \<subseteq> set (visited @ [child])
          \<union> (adjacent gr)\<^sup>* `` stack_set (nbrs gr child # children # stack)"
      by simp
    also have "\<dots> \<subseteq> set visited \<union> (adjacent gr)\<^sup>* `` stack_set ((child # children) # stack)"
      using step by auto
    finally show ?thesis .
  qed
qed

lemma dfs_loop_closed:
  "\<forall>v \<in> set visited. set (nbrs gr v) \<subseteq> set visited \<union> stack_set stack
   \<Longrightarrow> \<forall>v \<in> set (dfs_loop gr stack visited).
         set (nbrs gr v) \<subseteq> set (dfs_loop gr stack visited)"
proof (induction gr stack visited rule: dfs_loop.induct)
  case (1 gr visited)
  then show ?case by simp
next
  case (2 gr stack visited)
  then show ?case by simp
next
  case (3 gr child children stack visited)
  show ?case
  proof (cases "child \<in> set visited")
    case True
    have "\<forall>v \<in> set visited. set (nbrs gr v) \<subseteq> set visited \<union> stack_set (children # stack)"
      using "3.prems" True by auto
    from "3.IH"(1) [OF True this] True show ?thesis by simp
  next
    case False
    have "\<forall>v \<in> set (visited @ [child]).
        set (nbrs gr v) \<subseteq> set (visited @ [child]) \<union> stack_set (nbrs gr child # children # stack)"
      using "3.prems" by auto
    from "3.IH"(2) [OF False this] False show ?thesis by simp
  qed
qed

lemma dfs_from_source:
  "set (dfs_loop gr [nbrs gr s] [s]) = (adjacent gr)\<^sup>* `` {s}"
proof
  let ?res = "dfs_loop gr [nbrs gr s] [s]"
  have "set ?res \<subseteq> set [s] \<union> (adjacent gr)\<^sup>* `` stack_set [nbrs gr s]"
    by (rule dfs_loop_sound)
  moreover have "(adjacent gr)\<^sup>* `` set (nbrs gr s) \<subseteq> (adjacent gr)\<^sup>* `` {s}"
  proof
    fix y assume "y \<in> (adjacent gr)\<^sup>* `` set (nbrs gr s)"
    then obtain x where x: "x \<in> set (nbrs gr s)" and xy: "(x, y) \<in> (adjacent gr)\<^sup>*"
      by auto
    from x have "(s, x) \<in> adjacent gr" by (simp add: adjacent_def)
    with xy show "y \<in> (adjacent gr)\<^sup>* `` {s}"
      by (auto intro: converse_rtrancl_into_rtrancl)
  qed
  ultimately show "set ?res \<subseteq> (adjacent gr)\<^sup>* `` {s}" by auto
next
  let ?res = "dfs_loop gr [nbrs gr s] [s]"
  have s: "s \<in> set ?res" using dfs_loop_mono [of "[s]" gr "[nbrs gr s]"] by simp
  have "\<forall>v \<in> set [s]. set (nbrs gr v) \<subseteq> set [s] \<union> stack_set [nbrs gr s]" by auto
  then have closed: "\<forall>v \<in> set ?res. set (nbrs gr v) \<subseteq> set ?res"
    by (rule dfs_loop_closed)
  show "(adjacent gr)\<^sup>* `` {s} \<subseteq> set ?res"
  proof
    fix y assume "y \<in> (adjacent gr)\<^sup>* `` {s}"
    then have "(s, y) \<in> (adjacent gr)\<^sup>*" by simp
    then show "y \<in> set ?res"
    proof (induction rule: rtrancl_induct)
      case base
      show ?case by (rule s)
    next
      case (step y z)
      from step.hyps(2) have "z \<in> set (nbrs gr y)" by (simp add: adjacent_def)
      with closed step.IH show ?case by blast
    qed
  qed
qed

lemma dfs_from_source_distinct: "distinct (dfs_loop gr [nbrs gr s] [s])"
  by (rule dfs_loop_distinct) simp

section \<open>The traversal computes the recursive depth-first preorder\<close>

inductive_cases stack_consE: "dfs_stack gr (cs # stack) visited visited'"
inductive_cases children_nilE: "dfs_children gr [] visited visited'"
inductive_cases children_consE: "dfs_children gr (c # cs) visited visited'"
inductive_cases visit_E: "dfs_visit gr v visited visited'"

lemma dfs_loop_stack_spec: "dfs_stack gr stack visited (dfs_loop gr stack visited)"
proof (induction gr stack visited rule: dfs_loop.induct)
  case (1 gr visited)
  show ?case by (simp add: stack_empty)
next
  case (2 gr stack visited)
  have "dfs_children gr [] visited visited" by (rule children_done)
  from stack_next [OF this 2] show ?case by simp
next
  case (3 gr child children stack visited)
  show ?case
  proof (cases "child \<in> set visited")
    case True
    from "3.IH"(1) [OF True] have "dfs_stack gr (children # stack) visited
        (dfs_loop gr (children # stack) visited)" .
    then obtain v1 where c: "dfs_children gr children visited v1"
      and s: "dfs_stack gr stack v1 (dfs_loop gr (children # stack) visited)"
      by (rule stack_consE)
    have "dfs_visit gr child visited visited" by (rule visit_seen [OF True])
    from children_next [OF this c] have "dfs_children gr (child # children) visited v1" .
    from stack_next [OF this s] True show ?thesis by simp
  next
    case False
    let ?res = "dfs_loop gr (nbrs gr child # children # stack) (visited @ [child])"
    from "3.IH"(2) [OF False]
    have "dfs_stack gr (nbrs gr child # children # stack) (visited @ [child]) ?res" .
    then obtain v1 where c1: "dfs_children gr (nbrs gr child) (visited @ [child]) v1"
      and s1: "dfs_stack gr (children # stack) v1 ?res"
      by (rule stack_consE)
    from s1 obtain v2 where c2: "dfs_children gr children v1 v2"
      and s2: "dfs_stack gr stack v2 ?res"
      by (rule stack_consE)
    have "dfs_visit gr child visited v1" by (rule visit_new [OF False c1])
    from children_next [OF this c2] have "dfs_children gr (child # children) visited v2" .
    from stack_next [OF this s2] False show ?thesis by simp
  qed
qed

lemma dfs_spec_deterministic:
  shows "dfs_visit gr v visited a \<Longrightarrow> \<forall>b. dfs_visit gr v visited b \<longrightarrow> b = a"
    and "dfs_children gr cs visited a \<Longrightarrow> \<forall>b. dfs_children gr cs visited b \<longrightarrow> b = a"
proof (induction rule: dfs_visit_dfs_children.inducts)
  case (visit_seen v visited)
  show ?case by (auto elim: visit_E simp: visit_seen)
next
  case (visit_new v visited visited')
  show ?case
  proof (intro allI impI)
    fix b assume "dfs_visit gr v visited b"
    then have "dfs_children gr (nbrs gr v) (visited @ [v]) b"
      using visit_new by (auto elim: visit_E)
    with visit_new show "b = visited'" by blast
  qed
next
  case (children_done visited)
  show ?case by (auto elim: children_nilE)
next
  case (children_next c visited visited1 cs visited2)
  show ?case
  proof (intro allI impI)
    fix b assume "dfs_children gr (c # cs) visited b"
    then obtain m where m: "dfs_visit gr c visited m" and r: "dfs_children gr cs m b"
      by (rule children_consE)
    from children_next m have "m = visited1" by blast
    with r children_next show "b = visited2" by blast
  qed
qed

lemma dfs_loop_is_preorder:
  "dfs_visit gr s [] (dfs_loop gr [nbrs gr s] [s])"
  "dfs_visit gr s [] order' \<Longrightarrow> order' = dfs_loop gr [nbrs gr s] [s]"
proof -
  let ?res = "dfs_loop gr [nbrs gr s] [s]"
  have "dfs_stack gr [nbrs gr s] [s] ?res" by (rule dfs_loop_stack_spec)
  then obtain v1 where c: "dfs_children gr (nbrs gr s) [s] v1" and e: "dfs_stack gr [] v1 ?res"
    by (rule stack_consE)
  from e have "v1 = ?res" by (cases rule: dfs_stack.cases) simp_all
  with c have "dfs_children gr (nbrs gr s) ([] @ [s]) ?res" by simp
  then show v: "dfs_visit gr s [] ?res" by (intro visit_new) simp_all
  assume "dfs_visit gr s [] order'"
  with dfs_spec_deterministic(1) [OF v] show "order' = ?res" by blast
qed

lemma dfs_loop_prefix: "\<exists>rest. dfs_loop gr stack visited = visited @ rest"
proof (induction gr stack visited rule: dfs_loop.induct)
  case (1 gr visited)
  show ?case by simp
next
  case (2 gr stack visited)
  then show ?case by simp
next
  case (3 gr child children stack visited)
  show ?case
  proof (cases "child \<in> set visited")
    case True
    with "3.IH"(1) show ?thesis by simp
  next
    case False
    from "3.IH"(2) [OF False] obtain rest
      where "dfs_loop gr (nbrs gr child # children # stack) (visited @ [child])
               = (visited @ [child]) @ rest" by blast
    with False show ?thesis by simp
  qed
qed

lemma dfs_starts_at_source: "hd (dfs_loop gr [nbrs gr s] [s]) = s"
  using dfs_loop_prefix [of gr "[nbrs gr s]" "[s]"] by auto

section \<open>Properties of the active graph and of get\_energized\_status\<close>

lemma nodes_add_node: "set (nodes (add_node gr n)) = insert n (set (nodes gr))"
  by (auto simp: add_node_def nodes_def)

lemma map_of_map_entry:
  "map_of (map (\<lambda>(n, ns). if n = u then (n, f ns) else (n, ns)) gr) x
     = (if x = u then map_option f (map_of gr x) else map_of gr x)"
  by (induction gr) auto

lemma nbrs_add_node: "nbrs (add_node gr n) x = nbrs gr x"
proof (cases "n \<in> set (nodes gr)")
  case True
  then show ?thesis by (simp add: add_node_def)
next
  case False
  then have none: "map_of gr n = None" by (simp add: nodes_def map_of_eq_None_iff)
  have "map_of (gr @ [(n, [])]) x = (case map_of gr x of None \<Rightarrow> map_of [(n, [])] x | Some v \<Rightarrow> Some v)"
    by (simp add: map_add_def split: option.splits)
  then show ?thesis using False none
    by (auto simp: add_node_def nbrs_def split: option.splits if_splits)
qed

lemma nodes_add_nbr: "nodes (add_nbr gr u v) = nodes gr"
  by (induction gr) (auto simp: add_nbr_def nodes_def)

lemma map_of_add_nbr:
  "map_of (add_nbr gr u v) x
      = (if x = u then map_option (\<lambda>ns. if v \<in> set ns then ns else ns @ [v]) (map_of gr x)
         else map_of gr x)"
  using map_of_map_entry [of u "\<lambda>ns. if v \<in> set ns then ns else ns @ [v]" gr x]
  by (simp add: add_nbr_def)

lemma in_nodes_map_of: "(u \<in> set (nodes gr)) = (map_of gr u \<noteq> None)"
  unfolding map_of_eq_None_iff nodes_def by simp

lemma set_nbrs_add_nbr:
  "set (nbrs (add_nbr gr u v) x)
     = (if x = u \<and> u \<in> set (nodes gr) then insert v (set (nbrs gr x)) else set (nbrs gr x))"
proof (cases "x = u")
  case False
  from False have "map_of (add_nbr gr u v) x = map_of gr x" by (simp add: map_of_add_nbr)
  then have "nbrs (add_nbr gr u v) x = nbrs gr x" unfolding nbrs_def by simp
  then show ?thesis using False by simp
next
  case True
  show ?thesis
  proof (cases "map_of gr u")
    case None
    then have nu: "u \<notin> set (nodes gr)" by (simp add: in_nodes_map_of)
    from None have "map_of (add_nbr gr u v) u = None" by (simp add: map_of_add_nbr)
    then have "nbrs (add_nbr gr u v) u = nbrs gr u" unfolding nbrs_def using None by simp
    then show ?thesis using True nu by simp
  next
    case (Some ns)
    then have iu: "u \<in> set (nodes gr)" by (simp add: in_nodes_map_of)
    from Some have "map_of (add_nbr gr u v) u = Some (if v \<in> set ns then ns else ns @ [v])"
      by (simp add: map_of_add_nbr)
    then have "nbrs (add_nbr gr u v) u = (if v \<in> set ns then ns else ns @ [v])"
      unfolding nbrs_def by simp
    moreover have "nbrs gr u = ns" unfolding nbrs_def using Some by simp
    ultimately show ?thesis using True iu by auto
  qed
qed

lemma nodes_add_edge: "set (nodes (add_edge gr u v)) = insert u (insert v (set (nodes gr)))"
  by (auto simp: add_edge_def nodes_add_nbr nodes_add_node)

lemma adjacent_add_edge: "adjacent (add_edge gr u v) = adjacent gr \<union> {(u, v), (v, u)}"
  by (auto simp: adjacent_def add_edge_def set_nbrs_add_nbr nodes_add_nbr nodes_add_node
        nbrs_add_node split: if_splits)

lemma nodes_add_nodes_from: "set (nodes (add_nodes_from gr ns)) = set (nodes gr) \<union> set ns"
  unfolding add_nodes_from_def
  by (induction ns arbitrary: gr) (auto simp: nodes_add_node)

lemma adjacent_add_nodes_from: "adjacent (add_nodes_from gr ns) = adjacent gr"
  unfolding add_nodes_from_def
  by (induction ns arbitrary: gr) (auto simp: adjacent_def nbrs_add_node)

lemma adjacent_empty: "adjacent [] = {}"
  by (simp add: adjacent_def nbrs_def)

lemma active_fold_nodes:
  "set (nodes (fold (\<lambda>l active. if in_service l then add_edge active (from_bus l) (to_bus l)
                                else active) ls gr))
     = set (nodes gr) \<union> {b. \<exists>l \<in> set ls. in_service l \<and> (b = from_bus l \<or> b = to_bus l)}"
  by (induction ls arbitrary: gr) (auto simp: nodes_add_edge)

lemma active_fold_adjacent:
  "adjacent (fold (\<lambda>l active. if in_service l then add_edge active (from_bus l) (to_bus l)
                                else active) ls gr)
     = adjacent gr \<union> {(from_bus l, to_bus l) | l. l \<in> set ls \<and> in_service l}
         \<union> {(to_bus l, from_bus l) | l. l \<in> set ls \<and> in_service l}"
  by (induction ls arbitrary: gr) (auto simp: adjacent_add_edge)

lemma nodes_get_active_graph:
  "set (nodes (get_active_graph g))
     = set (nodes (G g))
         \<union> {b. \<exists>l \<in> set (lines_of g). in_service l \<and> (b = from_bus l \<or> b = to_bus l)}"
  unfolding get_active_graph_def active_fold_nodes nodes_add_nodes_from
  by (simp add: nodes_def)

lemma adjacent_get_active_graph:
  "adjacent (get_active_graph g) = in_service_edges g \<union> (in_service_edges g)\<inverse>"
  unfolding get_active_graph_def active_fold_adjacent adjacent_add_nodes_from adjacent_empty
    in_service_edges_def
  by auto

lemma get_energized_status_char:
  assumes "wf_grid g"
  shows "get_energized_status g b =
     (if b \<in> set (nodes (G g))
      then Some (if ext_grid_bus g \<in> set (nodes (G g)) \<and> b \<in> energized_set g then 1 else 0)
      else None)"
proof -
  let ?s = "ext_grid_bus g"
  let ?act = "get_active_graph g"
  from assms have nonneg: "\<forall>n \<in> set (nodes (G g)). 0 \<le> n"
    and ends: "\<forall>l \<in> set (lines_of g). from_bus l \<in> set (nodes (G g)) \<and> to_bus l \<in> set (nodes (G g))"
    by (simp_all add: wf_grid_def)
  have act_nodes: "set (nodes ?act) = set (nodes (G g))"
    unfolding nodes_get_active_graph using ends by auto
  show ?thesis
  proof (cases "?s < 0 \<or> ?s \<notin> set (nodes ?act)")
    case True
    then have "?s \<notin> set (nodes (G g))" using nonneg act_nodes by auto
    with True show ?thesis by (simp add: get_energized_status_def Let_def)
  next
    case False
    then have mem: "?s \<in> set (nodes (G g))" and mem': "?s \<in> set (nodes ?act)"
      using act_nodes by auto
    have "descendants ?act ?s = Inr (set (dfs_loop ?act [nbrs ?act ?s] [?s]) - {?s})"
      using mem' by (simp add: descendants_def)
    moreover have "set (dfs_loop ?act [nbrs ?act ?s] [?s]) = energized_set g"
      unfolding dfs_from_source adjacent_get_active_graph energized_set_def ..
    moreover have "?s \<in> energized_set g" by (simp add: energized_set_def)
    ultimately have "(case descendants ?act ?s of Inr d \<Rightarrow> d \<union> {?s} | Inl e \<Rightarrow> {}) = energized_set g"
      by auto
    with False mem show ?thesis by (simp add: get_energized_status_def Let_def)
  qed
qed

lemma wf_faulted_path: "wf_grid faulted_path"
  by (auto simp: faulted_path_def trigger_fault_def path_grid_def wf_grid_def nx_graph_def nodes_def
      nbrs_def lines_of_def path_line_def Let_def)

lemma status_faulted_path:
  "get_energized_status faulted_path 0 = Some 1 \<and> get_energized_status faulted_path 1 = Some 1
   \<and> get_energized_status faulted_path 2 = Some 1 \<and> get_energized_status faulted_path 3 = Some 0
   \<and> get_energized_status faulted_path 4 = Some 0"
  by (simp add: faulted_path_def trigger_fault_def path_grid_def get_energized_status_def
      get_active_graph_def add_nodes_from_def add_node_def add_edge_def add_nbr_def
      descendants_def nodes_def nbrs_def lines_of_def path_line_def Let_def)

text \<open>
  C1. On a grid that satisfies the data invariant, \<open>get_energized_status\<close> has one entry
  per node of the grid. When the source is a node, the entry is 1 (true) exactly for the
  nodes reachable from the source through lines in service, taken in either direction, the
  source included, and 0 (false) for every other node. When the source is not a node,
  every entry is 0.
\<close>

theorem get_energized_status_spec:
  assumes "wf_grid g"
  shows "dom (get_energized_status g) = set (nodes (G g))
    \<and> (ext_grid_bus g \<in> set (nodes (G g)) \<longrightarrow>
         (\<forall>b \<in> set (nodes (G g)).
            get_energized_status g b = Some (if b \<in> energized_set g then 1 else 0))
         \<and> get_energized_status g (ext_grid_bus g) = Some 1)
    \<and> (ext_grid_bus g \<notin> set (nodes (G g)) \<longrightarrow>
         (\<forall>b \<in> set (nodes (G g)). get_energized_status g b = Some 0))"
proof -
  have "ext_grid_bus g \<in> energized_set g" by (simp add: energized_set_def)
  then show ?thesis
    using get_energized_status_char [OF assms] by (auto simp: dom_def split: if_splits)
qed

theorem get_energized_status_spec_witness:
  "wf_grid faulted_path \<and> ext_grid_bus faulted_path = 0
   \<and> set (nodes (G faulted_path)) = {0, 1, 2, 3, 4}
   \<and> dom (get_energized_status faulted_path) = {0, 1, 2, 3, 4}
   \<and> get_energized_status faulted_path 2 = Some 1 \<and> 2 \<in> energized_set faulted_path
   \<and> get_energized_status faulted_path 3 = Some 0 \<and> 3 \<notin> energized_set faulted_path"
proof -
  have src: "ext_grid_bus faulted_path = 0"
    by (simp add: faulted_path_def trigger_fault_def path_grid_def Let_def)
  have ns: "set (nodes (G faulted_path)) = {0, 1, 2, 3, 4}"
    by (auto simp: faulted_path_def trigger_fault_def path_grid_def nodes_def Let_def)
  from get_energized_status_spec [OF wf_faulted_path] src ns
  have d: "dom (get_energized_status faulted_path) = {0, 1, 2, 3, 4}"
    and e: "\<forall>b \<in> {0, 1, 2, 3, 4}.
       get_energized_status faulted_path b = Some (if b \<in> energized_set faulted_path then 1 else 0)"
    by simp_all
  from e have "get_energized_status faulted_path 2
        = Some (if 2 \<in> energized_set faulted_path then 1 else 0)"
    and "get_energized_status faulted_path 3
        = Some (if 3 \<in> energized_set faulted_path then 1 else 0)"
    by simp_all
  with status_faulted_path have "2 \<in> energized_set faulted_path" "3 \<notin> energized_set faulted_path"
    by (auto split: if_splits)
  with wf_faulted_path src ns d status_faulted_path show ?thesis by simp
qed

section \<open>Properties of place\_sensors\_sqrt\_n\<close>

lemma ceil_sqrt_pos: "0 < n \<Longrightarrow> 0 < ceil_sqrt n"
proof -
  assume "0 < n"
  then have "0 < sqrt (real n)" by simp
  then have "0 < \<lceil>sqrt (real n)\<rceil>" by (simp only: zero_less_ceiling)
  then show ?thesis by (simp add: ceil_sqrt_def)
qed

lemma ceil_sqrt_iff:
  assumes "0 < k"
  shows "(ceil_sqrt n = k) = ((k - 1) * (k - 1) < n \<and> n \<le> k * k)"
proof -
  have k1: "real (k - 1) = real k - 1" using assms by (simp add: of_nat_diff)
  have "\<And>z. (nat z = k) = (z = int k)" using assms by arith
  then have "(ceil_sqrt n = k) = (\<lceil>sqrt (real n)\<rceil> = int k)"
    unfolding ceil_sqrt_def by simp
  also have "\<dots> = (real k - 1 < sqrt (real n) \<and> sqrt (real n) \<le> real k)"
    by (simp add: ceiling_eq_iff)
  also have "(real k - 1 < sqrt (real n)) = (sqrt (real ((k - 1) * (k - 1))) < sqrt (real n))"
    using k1 by simp
  also have "(sqrt (real n) \<le> real k) = (sqrt (real n) \<le> sqrt (real (k * k)))"
    by simp
  finally show ?thesis
    by (simp only: real_sqrt_less_iff real_sqrt_le_iff of_nat_less_iff of_nat_le_iff)
qed

lemma div_up_bounds:
  fixes n k :: nat
  assumes "0 < k"
  shows "n \<le> ((n + k - 1) div k) * k"
    and "0 < n \<Longrightarrow> ((n + k - 1) div k - 1) * k < n"
    and "0 < n \<Longrightarrow> 0 < (n + k - 1) div k"
proof -
  let ?q = "(n + k - 1) div k"
  have a: "?q * k \<le> n + k - 1" by (rule div_times_less_eq_dividend)
  have "n + k - 1 < ?q * k + k"
    using assms dividend_less_div_times [of k "n + k - 1"] by (simp add: ac_simps)
  then show "n \<le> ?q * k" using assms by linarith
  {
    assume n: "0 < n"
    then have "k \<le> n + k - 1" using assms by linarith
    then have "1 \<le> ?q" using assms by (simp add: Suc_le_eq div_greater_zero_iff)
    then show "0 < ?q" by simp
    have "(?q - 1) * k = ?q * k - k" by (simp add: diff_mult_distrib)
    also have "\<dots> \<le> n - 1" using a by linarith
    also have "\<dots> < n" using n by simp
    finally show "(?q - 1) * k < n" .
  }
qed

lemma ceil_div:
  fixes n k :: nat
  assumes "0 < k"
  shows "nat \<lceil>real n / real k\<rceil> = (n + k - 1) div k"
proof (cases "n = 0")
  case True
  then show ?thesis using assms by simp
next
  case False
  let ?q = "(n + k - 1) div k"
  from False have n: "0 < n" by simp
  have up: "real n \<le> real ?q * real k"
    using div_up_bounds(1) [OF assms, of n] by (metis of_nat_le_iff of_nat_mult)
  have q: "0 < ?q" by (rule div_up_bounds(3) [OF assms n])
  have "real ((?q - 1) * k) < real n"
    using div_up_bounds(2) [OF assms n] by (simp only: of_nat_less_iff)
  then have lo: "(real ?q - 1) * real k < real n"
    using q by (simp add: of_nat_diff)
  have kr: "0 < real k" using assms by simp
  have "\<lceil>real n / real k\<rceil> = int ?q"
  proof (rule ceiling_unique)
    show "of_int (int ?q) - 1 < real n / real k"
      using lo kr by (simp add: pos_less_divide_eq)
    show "real n / real k \<le> of_int (int ?q)"
      using up kr by (simp add: pos_divide_le_eq)
  qed
  then show ?thesis by simp
qed

lemma concat_chunks:
  "concat (map (\<lambda>j. take k (drop (j * k) xs)) [0..<m]) = take (m * k) xs"
proof (induction m)
  case 0
  show ?case by simp
next
  case (Suc m)
  have "take (Suc m * k) xs = take (m * k + k) xs" by (simp add: ac_simps)
  also have "\<dots> = take (m * k) xs @ take k (drop (m * k) xs)" by (rule take_add)
  finally show ?case using Suc by simp
qed

lemma reach_subset_nodes:
  assumes "nx_graph gr" and "s \<in> set (nodes gr)"
  shows "(adjacent gr)\<^sup>* `` {s} \<subseteq> set (nodes gr)"
proof
  fix y assume "y \<in> (adjacent gr)\<^sup>* `` {s}"
  then have "(s, y) \<in> (adjacent gr)\<^sup>*" by simp
  then show "y \<in> set (nodes gr)"
  proof (induction rule: rtrancl_induct)
    case base
    show ?case by (rule assms(2))
  next
    case (step y z)
    from step.hyps(2) have "z \<in> set (nbrs gr y)" by (simp add: adjacent_def)
    with assms(1) step.IH show ?case unfolding nx_graph_def by blast
  qed
qed

lemma blocks_as_chunks:
  "map (\<lambda>i. take k (drop i xs)) (range_step n k)
     = map (\<lambda>j. take k (drop (j * k) xs)) [0..<(n + k - 1) div k]"
  by (simp add: range_step_def comp_def)

lemma dfs_covers_connected:
  assumes "nx_graph gr" and "s \<in> set (nodes gr)" and "connected_from gr s"
  shows "set (dfs_loop gr [nbrs gr s] [s]) = set (nodes gr)"
    and "length (dfs_loop gr [nbrs gr s] [s]) = length (nodes gr)"
proof -
  let ?ord = "dfs_loop gr [nbrs gr s] [s]"
  show eq: "set ?ord = set (nodes gr)"
    using reach_subset_nodes [OF assms(1,2)] assms(3)
    unfolding dfs_from_source connected_from_def by blast
  have "distinct ?ord" by (rule dfs_from_source_distinct)
  moreover have "distinct (nodes gr)" using assms(1) by (simp add: nx_graph_def)
  ultimately show "length ?ord = length (nodes gr)"
    using eq by (metis distinct_card)
qed

text \<open>
  C3. On a grid that satisfies the data invariant, whose source is a node and from whose
  source every node is reachable in the full graph, with \<open>n\<close> the number of nodes and
  \<open>k = ceil(sqrt(n))\<close>: \<open>place_sensors_sqrt_n\<close> returns \<open>ceil(n / k)\<close> blocks; every
  block but the last has exactly \<open>k\<close> nodes and the last has between 1 and \<open>k\<close>; the
  blocks concatenated are the depth-first preorder of the full graph from the source
  (the one list that the recursive search \<open>dfs_visit\<close> yields from the source; it starts
  with the source), which lists every node of the grid exactly once; and the sensor of
  each block is the last node of the block.
\<close>

theorem place_sensors_sqrt_n_spec:
  assumes wf: "wf_grid g"
    and src: "ext_grid_bus g \<in> set (nodes (G g))"
    and conn: "connected_from (G g) (ext_grid_bus g)"
  shows "let n = length (nodes (G g)); k = ceil_sqrt n
         in \<exists>sensors blocks.
              place_sensors_sqrt_n g = Inr (sensors, blocks)
              \<and> length blocks = nat \<lceil>real n / real k\<rceil>
              \<and> (\<forall>i. i + 1 < length blocks \<longrightarrow> length (blocks ! i) = k)
              \<and> 1 \<le> length (last blocks) \<and> length (last blocks) \<le> k
              \<and> dfs_preorder_nodes (G g) (ext_grid_bus g) = Inr (concat blocks)
              \<and> dfs_visit (G g) (ext_grid_bus g) [] (concat blocks)
              \<and> (\<forall>order'. dfs_visit (G g) (ext_grid_bus g) [] order' \<longrightarrow> order' = concat blocks)
              \<and> hd (concat blocks) = ext_grid_bus g
              \<and> set (concat blocks) = set (nodes (G g)) \<and> distinct (concat blocks)
              \<and> length sensors = length blocks
              \<and> (\<forall>i < length blocks. sensors ! i = last (blocks ! i))"
proof -
  let ?s = "ext_grid_bus g"
  let ?ord = "dfs_loop (G g) [nbrs (G g) ?s] [?s]"
  let ?n = "length (nodes (G g))"
  let ?k = "ceil_sqrt ?n"
  let ?m = "(?n + ?k - 1) div ?k"
  let ?blocks = "map (\<lambda>j. take ?k (drop (j * ?k) ?ord)) [0..<?m]"
  from wf have nx: "nx_graph (G g)" and nonneg: "\<forall>n \<in> set (nodes (G g)). 0 \<le> n"
    by (simp_all add: wf_grid_def)
  from nonneg src have s0: "\<not> ?s < 0" by auto
  have pre: "dfs_preorder_nodes (G g) ?s = Inr ?ord"
    using src by (simp add: dfs_preorder_nodes_def)
  have set_ord: "set ?ord = set (nodes (G g))" and len_ord: "length ?ord = ?n"
    using dfs_covers_connected [OF nx src conn] by simp_all
  have dist: "distinct ?ord" by (rule dfs_from_source_distinct)
  from src have n: "0 < ?n" by (cases "nodes (G g)") auto
  then have k: "0 < ?k" by (rule ceil_sqrt_pos)
  have m: "0 < ?m" by (rule div_up_bounds(3) [OF k n])
  have up: "?n \<le> ?m * ?k" by (rule div_up_bounds(1) [OF k])
  have lo: "(?m - 1) * ?k < ?n" by (rule div_up_bounds(2) [OF k n])
  have res: "place_sensors_sqrt_n g = Inr (map last ?blocks, ?blocks)"
    unfolding place_sensors_sqrt_n_def pre using s0 n len_ord
    by (simp add: Let_def blocks_as_chunks)
  have len_blocks: "length ?blocks = ?m" by simp
  have block: "\<And>j. j < ?m \<Longrightarrow> ?blocks ! j = take ?k (drop (j * ?k) ?ord)"
    by simp
  have full: "\<forall>i. i + 1 < length ?blocks \<longrightarrow> length (?blocks ! i) = ?k"
  proof (intro allI impI)
    fix i assume "i + 1 < length ?blocks"
    then have i: "i + 1 \<le> ?m - 1" and im: "i < ?m" by simp_all
    from i have "(i + 1) * ?k \<le> (?m - 1) * ?k" by (rule mult_le_mono1)
    with lo have "i * ?k + ?k < ?n" by (simp add: ac_simps)
    then have "?k \<le> ?n - i * ?k" by linarith
    then show "length (?blocks ! i) = ?k"
      unfolding block [OF im] using len_ord by simp
  qed
  have last_eq: "last ?blocks = take ?k (drop ((?m - 1) * ?k) ?ord)"
  proof -
    have "?blocks \<noteq> []" using m by simp
    then have "last ?blocks = ?blocks ! (length ?blocks - 1)" by (rule last_conv_nth)
    also have "\<dots> = ?blocks ! (?m - 1)" by (simp only: len_blocks)
    also have "\<dots> = take ?k (drop ((?m - 1) * ?k) ?ord)"
      using m by (intro block) simp
    finally show ?thesis .
  qed
  have last_len: "1 \<le> length (last ?blocks) \<and> length (last ?blocks) \<le> ?k"
    unfolding last_eq using lo k len_ord by simp
  have cat: "concat ?blocks = ?ord"
    unfolding concat_chunks using up len_ord by simp
  have "length ?blocks = nat \<lceil>real ?n / real ?k\<rceil>"
    unfolding ceil_div [OF k] by simp
  moreover have "\<forall>i < length ?blocks. map last ?blocks ! i = last (?blocks ! i)"
    by simp
  moreover have "length (map last ?blocks) = length ?blocks" by simp
  moreover have "dfs_preorder_nodes (G g) ?s = Inr (concat ?blocks)"
    using pre cat by simp
  moreover have "set (concat ?blocks) = set (nodes (G g))" "distinct (concat ?blocks)"
    using cat set_ord dist by simp_all
  moreover have "dfs_visit (G g) ?s [] (concat ?blocks)"
    unfolding cat by (rule dfs_loop_is_preorder(1))
  moreover have "\<forall>order'. dfs_visit (G g) ?s [] order' \<longrightarrow> order' = concat ?blocks"
    unfolding cat using dfs_loop_is_preorder(2) by blast
  moreover have "hd (concat ?blocks) = ?s"
    unfolding cat by (rule dfs_starts_at_source)
  ultimately have "\<exists>sensors blocks.
              place_sensors_sqrt_n g = Inr (sensors, blocks)
              \<and> length blocks = nat \<lceil>real ?n / real ?k\<rceil>
              \<and> (\<forall>i. i + 1 < length blocks \<longrightarrow> length (blocks ! i) = ?k)
              \<and> 1 \<le> length (last blocks) \<and> length (last blocks) \<le> ?k
              \<and> dfs_preorder_nodes (G g) (ext_grid_bus g) = Inr (concat blocks)
              \<and> dfs_visit (G g) (ext_grid_bus g) [] (concat blocks)
              \<and> (\<forall>order'. dfs_visit (G g) (ext_grid_bus g) [] order' \<longrightarrow> order' = concat blocks)
              \<and> hd (concat blocks) = ext_grid_bus g
              \<and> set (concat blocks) = set (nodes (G g)) \<and> distinct (concat blocks)
              \<and> length sensors = length blocks
              \<and> (\<forall>i < length blocks. sensors ! i = last (blocks ! i))"
    using res full last_len by blast
  then show ?thesis by (simp only: Let_def)
qed

lemma ceil_sqrt_5: "ceil_sqrt 5 = 3"
  by (simp add: ceil_sqrt_iff)

lemma branch_dfs: "dfs_loop (G branch_grid) [nbrs (G branch_grid) 0] [0] = [0, 2, 3, 1, 4]"
  by (simp add: branch_grid_def nbrs_def)

lemma branch_wf: "wf_grid branch_grid"
  by (auto simp: branch_grid_def wf_grid_def nx_graph_def nodes_def nbrs_def lines_of_def
      branch_line_def)

lemma branch_conn: "connected_from (G branch_grid) 0"
  unfolding connected_from_def dfs_from_source [symmetric] branch_dfs
  by (simp add: branch_grid_def nodes_def)

lemma branch_place:
  "place_sensors_sqrt_n branch_grid = Inr ([3, 4], [[0, 2, 3], [1, 4]])"
proof -
  have s: "ext_grid_bus branch_grid = 0" by (simp add: branch_grid_def)
  have n: "nodes (G branch_grid) = [0, 1, 2, 3, 4]" by (simp add: branch_grid_def nodes_def)
  have five: "Suc (Suc (Suc (Suc (Suc 0)))) = 5" by simp
  have r: "range_step 5 3 = [0, 3]" by (simp add: range_step_def upt_rec)
  show ?thesis
    unfolding place_sensors_sqrt_n_def s dfs_preorder_nodes_def n branch_dfs
    by (simp add: five ceil_sqrt_5 r del: One_nat_def)
qed

theorem place_sensors_sqrt_n_spec_witness:
  "wf_grid branch_grid \<and> ext_grid_bus branch_grid \<in> set (nodes (G branch_grid))
   \<and> connected_from (G branch_grid) (ext_grid_bus branch_grid)
   \<and> nodes (G branch_grid) = [0, 1, 2, 3, 4]
   \<and> place_sensors_sqrt_n branch_grid = Inr ([3, 4], [[0, 2, 3], [1, 4]])
   \<and> dfs_visit (G branch_grid) 0 [] [0, 2, 3, 1, 4]
   \<and> ceil_sqrt (length (nodes (G branch_grid))) = 3
   \<and> nat \<lceil>real (length (nodes (G branch_grid))) / real (3::nat)\<rceil> = 2"
proof -
  have s: "ext_grid_bus branch_grid = 0" by (simp add: branch_grid_def)
  have n: "nodes (G branch_grid) = [0, 1, 2, 3, 4]" by (simp add: branch_grid_def nodes_def)
  have src: "ext_grid_bus branch_grid \<in> set (nodes (G branch_grid))"
    unfolding s n by simp
  have conn: "connected_from (G branch_grid) (ext_grid_bus branch_grid)"
    unfolding s by (rule branch_conn)
  have len5: "length (nodes (G branch_grid)) = 5" unfolding n by simp
  have k: "ceil_sqrt (length (nodes (G branch_grid))) = 3" unfolding len5 by (rule ceil_sqrt_5)
  from place_sensors_sqrt_n_spec [OF branch_wf src conn]
  obtain sensors blocks
    where p: "place_sensors_sqrt_n branch_grid = Inr (sensors, blocks)"
      and len: "length blocks = nat \<lceil>real (length (nodes (G branch_grid)))
                  / real (ceil_sqrt (length (nodes (G branch_grid))))\<rceil>"
      and v: "dfs_visit (G branch_grid) (ext_grid_bus branch_grid) [] (concat blocks)"
    unfolding Let_def by blast
  from p branch_place have b: "blocks = [[0, 2, 3], [1, 4]]" by simp
  from v have v': "dfs_visit (G branch_grid) 0 [] [0, 2, 3, 1, 4]" unfolding b s by simp
  have "length blocks = 2" unfolding b by simp
  with len have l': "nat \<lceil>real (length (nodes (G branch_grid))) / real (3::nat)\<rceil> = 2"
    unfolding k by simp
  from branch_wf src conn n branch_place v' k l' show ?thesis by blast
qed

section \<open>The graph operations keep the graph invariant\<close>

lemma nbrs_not_node: "n \<notin> set (nodes gr) \<Longrightarrow> nbrs gr n = []"
  by (simp add: nbrs_def in_nodes_map_of)

lemma in_nbrs_node:
  assumes "v \<in> set (nbrs gr u)"
  shows "u \<in> set (nodes gr)"
proof (rule ccontr)
  assume "u \<notin> set (nodes gr)"
  then have "nbrs gr u = []" by (rule nbrs_not_node)
  with assms show False by simp
qed

lemma nx_graph_alt:
  "nx_graph gr = (distinct (nodes gr) \<and> (\<forall>n. distinct (nbrs gr n))
                  \<and> adjacent gr \<subseteq> set (nodes gr) \<times> set (nodes gr) \<and> sym (adjacent gr))"
proof
  assume a: "nx_graph gr"
  have d: "\<forall>n. distinct (nbrs gr n)"
  proof
    fix n show "distinct (nbrs gr n)"
      using a nbrs_not_node [of n gr] by (cases "n \<in> set (nodes gr)") (auto simp: nx_graph_def)
  qed
  have s: "adjacent gr \<subseteq> set (nodes gr) \<times> set (nodes gr)"
  proof
    fix p assume "p \<in> adjacent gr"
    then obtain u v where p: "p = (u, v)" and v: "v \<in> set (nbrs gr u)"
      by (auto simp: adjacent_def)
    from v have u: "u \<in> set (nodes gr)" by (rule in_nbrs_node)
    with a v have "v \<in> set (nodes gr)" unfolding nx_graph_def by blast
    with u p show "p \<in> set (nodes gr) \<times> set (nodes gr)" by simp
  qed
  have "sym (adjacent gr)"
  proof (rule symI)
    fix u v assume "(u, v) \<in> adjacent gr"
    then have v: "v \<in> set (nbrs gr u)" by (simp add: adjacent_def)
    then have u: "u \<in> set (nodes gr)" by (rule in_nbrs_node)
    with a v have "u \<in> set (nbrs gr v)" unfolding nx_graph_def by blast
    then show "(v, u) \<in> adjacent gr" by (simp add: adjacent_def)
  qed
  with a d s show "distinct (nodes gr) \<and> (\<forall>n. distinct (nbrs gr n))
                  \<and> adjacent gr \<subseteq> set (nodes gr) \<times> set (nodes gr) \<and> sym (adjacent gr)"
    by (simp add: nx_graph_def)
next
  assume a: "distinct (nodes gr) \<and> (\<forall>n. distinct (nbrs gr n))
                  \<and> adjacent gr \<subseteq> set (nodes gr) \<times> set (nodes gr) \<and> sym (adjacent gr)"
  then have sub: "\<And>u v. v \<in> set (nbrs gr u) \<Longrightarrow> v \<in> set (nodes gr)"
    and sy: "\<And>u v. v \<in> set (nbrs gr u) \<Longrightarrow> u \<in> set (nbrs gr v)"
    by (auto simp: adjacent_def sym_def)
  from a sub sy show "nx_graph gr" unfolding nx_graph_def by blast
qed

lemma nodes_add_node_list:
  "nodes (add_node gr n) = (if n \<in> set (nodes gr) then nodes gr else nodes gr @ [n])"
  by (simp add: add_node_def nodes_def)

lemma adjacent_add_node: "adjacent (add_node gr n) = adjacent gr"
  by (simp add: adjacent_def nbrs_add_node)

lemma nx_graph_add_node: "nx_graph gr \<Longrightarrow> nx_graph (add_node gr n)"
  unfolding nx_graph_alt adjacent_add_node
  by (auto simp: nodes_add_node_list nbrs_add_node)

lemma distinct_nbrs_add_nbr:
  "distinct (nbrs gr x) \<Longrightarrow> distinct (nbrs (add_nbr gr u v) x)"
proof (cases "x = u")
  case False
  assume d: "distinct (nbrs gr x)"
  from False have "map_of (add_nbr gr u v) x = map_of gr x" by (simp add: map_of_add_nbr)
  then have "nbrs (add_nbr gr u v) x = nbrs gr x" unfolding nbrs_def by simp
  with d show ?thesis by simp
next
  case True
  assume d: "distinct (nbrs gr x)"
  show ?thesis
  proof (cases "map_of gr u")
    case None
    then have "map_of (add_nbr gr u v) u = None" by (simp add: map_of_add_nbr)
    then have "nbrs (add_nbr gr u v) u = []" unfolding nbrs_def by simp
    with True show ?thesis by simp
  next
    case (Some ns)
    from Some have "map_of (add_nbr gr u v) u = Some (if v \<in> set ns then ns else ns @ [v])"
      by (simp add: map_of_add_nbr)
    then have "nbrs (add_nbr gr u v) u = (if v \<in> set ns then ns else ns @ [v])"
      unfolding nbrs_def by simp
    moreover have "nbrs gr u = ns" unfolding nbrs_def using Some by simp
    ultimately show ?thesis using True d by auto
  qed
qed

lemma nodes_add_edge_list:
  "nodes (add_edge gr u v) = nodes (add_node (add_node gr u) v)"
  by (simp add: add_edge_def nodes_add_nbr)

lemma nx_graph_add_edge:
  assumes "nx_graph gr"
  shows "nx_graph (add_edge gr u v)"
proof -
  from assms have a: "distinct (nodes gr)" "\<forall>n. distinct (nbrs gr n)"
    "adjacent gr \<subseteq> set (nodes gr) \<times> set (nodes gr)" "sym (adjacent gr)"
    by (simp_all add: nx_graph_alt)
  have "distinct (nodes (add_edge gr u v))"
    using a(1) by (auto simp: nodes_add_edge_list nodes_add_node_list)
  moreover have "\<forall>n. distinct (nbrs (add_edge gr u v) n)"
    unfolding add_edge_def using a(2)
    by (auto intro!: distinct_nbrs_add_nbr simp: nbrs_add_node)
  moreover have "adjacent (add_edge gr u v)
      \<subseteq> set (nodes (add_edge gr u v)) \<times> set (nodes (add_edge gr u v))"
    unfolding adjacent_add_edge nodes_add_edge using a(3) by auto
  moreover have "sym (adjacent (add_edge gr u v))"
    unfolding adjacent_add_edge using a(4) by (auto simp: sym_def)
  ultimately show ?thesis by (simp add: nx_graph_alt)
qed

lemma nx_graph_empty: "nx_graph []"
  by (simp add: nx_graph_def nodes_def)

lemma nodes_remove_nodes_from:
  "nodes (remove_nodes_from gr removed) = filter (\<lambda>n. n \<notin> set removed) (nodes gr)"
  by (induction gr) (auto simp: remove_nodes_from_def nodes_def)

lemma map_of_remove_nodes_from:
  "map_of (remove_nodes_from gr removed) x
     = (if x \<in> set removed then None
        else map_option (filter (\<lambda>m. m \<notin> set removed)) (map_of gr x))"
  by (induction gr) (auto simp: remove_nodes_from_def)

lemma nbrs_remove_nodes_from:
  "nbrs (remove_nodes_from gr removed) x
     = (if x \<in> set removed then [] else filter (\<lambda>m. m \<notin> set removed) (nbrs gr x))"
  by (cases "map_of gr x") (simp_all add: nbrs_def map_of_remove_nodes_from)

lemma adjacent_remove_nodes_from:
  "adjacent (remove_nodes_from gr removed)
     = adjacent gr \<inter> ((- set removed) \<times> (- set removed))"
  by (auto simp: adjacent_def nbrs_remove_nodes_from split: if_splits)

lemma nx_graph_remove_nodes_from:
  assumes "nx_graph gr"
  shows "nx_graph (remove_nodes_from gr removed)"
proof -
  from assms have a: "distinct (nodes gr)" "\<forall>n. distinct (nbrs gr n)"
    "adjacent gr \<subseteq> set (nodes gr) \<times> set (nodes gr)" "sym (adjacent gr)"
    by (simp_all add: nx_graph_alt)
  have "sym (adjacent (remove_nodes_from gr removed))"
    unfolding adjacent_remove_nodes_from using a(4) by (auto simp: sym_def)
  moreover have "adjacent (remove_nodes_from gr removed)
      \<subseteq> set (nodes (remove_nodes_from gr removed)) \<times> set (nodes (remove_nodes_from gr removed))"
    unfolding adjacent_remove_nodes_from nodes_remove_nodes_from using a(3) by auto
  ultimately show ?thesis
    using a(1,2) by (simp add: nx_graph_alt nodes_remove_nodes_from nbrs_remove_nodes_from)
qed

section \<open>Connected components\<close>

lemma reach_sym:
  assumes "sym r" and "(u, v) \<in> r\<^sup>*"
  shows "(v, u) \<in> r\<^sup>*"
  using assms(2)
proof (induction rule: rtrancl_induct)
  case base
  show ?case by simp
next
  case (step y z)
  from step.hyps(2) assms(1) have "(z, y) \<in> r" by (auto dest: symD)
  with step.IH show ?case by (auto intro: converse_rtrancl_into_rtrancl)
qed

lemma reach_stays_in_component:
  assumes "(v, w) \<in> r\<^sup>*"
  shows "(v, w) \<in> (r \<inter> (r\<^sup>* `` {v}) \<times> (r\<^sup>* `` {v}))\<^sup>*"
  using assms
proof (induction rule: rtrancl_induct)
  case base
  show ?case by simp
next
  case (step y z)
  from step.hyps have "y \<in> r\<^sup>* `` {v}" "z \<in> r\<^sup>* `` {v}" by auto
  with step.hyps(2) have "(y, z) \<in> r \<inter> (r\<^sup>* `` {v}) \<times> (r\<^sup>* `` {v})" by simp
  with step.IH show ?case by (rule rtrancl_into_rtrancl)
qed

lemma component_connected:
  assumes "sym r" and "s \<in> r\<^sup>* `` {v}" and "w \<in> r\<^sup>* `` {v}"
  shows "(s, w) \<in> (r \<inter> (r\<^sup>* `` {v}) \<times> (r\<^sup>* `` {v}))\<^sup>*"
proof -
  let ?r = "r \<inter> (r\<^sup>* `` {v}) \<times> (r\<^sup>* `` {v})"
  have sy: "sym ?r" using assms(1) by (auto simp: sym_def)
  from assms(2) have "(v, s) \<in> ?r\<^sup>*" using reach_stays_in_component [of v s r] by simp
  then have "(s, v) \<in> ?r\<^sup>*" by (rule reach_sym [OF sy])
  moreover from assms(3) have "(v, w) \<in> ?r\<^sup>*"
    using reach_stays_in_component [of v w r] by simp
  ultimately show ?thesis by (rule rtrancl_trans)
qed

lemma connected_from_any:
  assumes "nx_graph gr" and "connected_from gr v" and "s \<in> set (nodes gr)"
  shows "connected_from gr s"
proof -
  from assms(1) have sy: "sym (adjacent gr)" by (simp add: nx_graph_alt)
  from assms(2,3) have "(v, s) \<in> (adjacent gr)\<^sup>*" by (auto simp: connected_from_def)
  then have sv: "(s, v) \<in> (adjacent gr)\<^sup>*" by (rule reach_sym [OF sy])
  show ?thesis unfolding connected_from_def
  proof
    fix w assume "w \<in> set (nodes gr)"
    with assms(2) have "(v, w) \<in> (adjacent gr)\<^sup>*" by (auto simp: connected_from_def)
    with sv have "(s, w) \<in> (adjacent gr)\<^sup>*" by (rule rtrancl_trans)
    then show "w \<in> (adjacent gr)\<^sup>* `` {s}" by simp
  qed
qed

lemma is_connected_sound:
  assumes nx: "nx_graph gr" and c: "is_connected gr = Inr True" and s: "s \<in> set (nodes gr)"
  shows "connected_from gr s"
proof -
  from c obtain n ns where n: "nodes gr = n # ns"
    and len: "length (dfs_loop gr [nbrs gr n] [n]) = length gr"
    by (auto simp: is_connected_def split: list.splits)
  let ?ord = "dfs_loop gr [nbrs gr n] [n]"
  have nin: "n \<in> set (nodes gr)" using n by simp
  have sub: "set ?ord \<subseteq> set (nodes gr)"
    unfolding dfs_from_source by (rule reach_subset_nodes [OF nx nin])
  have d: "distinct ?ord" by (rule dfs_from_source_distinct)
  have dn: "distinct (nodes gr)" using nx by (simp add: nx_graph_def)
  have "length (nodes gr) = length gr" by (simp add: nodes_def)
  then have "card (set ?ord) = card (set (nodes gr))"
    using len distinct_card [OF d] distinct_card [OF dn] by simp
  with sub have "set ?ord = set (nodes gr)" by (simp add: card_subset_eq)
  then have "connected_from gr n" by (simp add: connected_from_def dfs_from_source)
  then show ?thesis using s by (rule connected_from_any [OF nx])
qed

lemma components_loop_member:
  "c \<in> set (components_loop gr vs seen) \<Longrightarrow> \<exists>v \<in> set vs. c = dfs_loop gr [nbrs gr v] [v]"
  by (induction vs arbitrary: seen) (auto simp: Let_def split: if_splits)

lemma max_by_len_fold_member:
  "fold (\<lambda>c best. if length best < length c then c else best) cs b \<in> insert b (set cs)"
  by (induction cs arbitrary: b) auto

lemma max_by_len_member: "cs \<noteq> [] \<Longrightarrow> max_by_len cs \<in> set cs"
  using max_by_len_fold_member [of "tl cs" "hd cs"]
  by (cases cs) (auto simp: max_by_len_def)

lemma connected_components_nonempty: "nodes gr \<noteq> [] \<Longrightarrow> connected_components gr \<noteq> []"
  by (cases "nodes gr") (simp_all add: connected_components_def Let_def)

lemma largest_component:
  assumes "nodes gr \<noteq> []"
  shows "\<exists>v \<in> set (nodes gr). max_by_len (connected_components gr) = dfs_loop gr [nbrs gr v] [v]"
proof -
  have "max_by_len (connected_components gr) \<in> set (connected_components gr)"
    by (rule max_by_len_member [OF connected_components_nonempty [OF assms]])
  then show ?thesis unfolding connected_components_def by (rule components_loop_member)
qed

lemma pruned_graph_connected:
  assumes nx: "nx_graph gr" and v: "v \<in> set (nodes gr)"
    and cc: "cc = set (dfs_loop gr [nbrs gr v] [v])"
    and gr': "gr' = remove_nodes_from gr (filter (\<lambda>n. n \<notin> cc) (nodes gr))"
  shows "set (nodes gr') = cc" and "nx_graph gr'"
    and "adjacent gr' = adjacent gr \<inter> cc \<times> cc"
    and "s \<in> cc \<Longrightarrow> connected_from gr' s"
proof -
  have cc_reach: "cc = (adjacent gr)\<^sup>* `` {v}" unfolding cc by (rule dfs_from_source)
  have cc_sub: "cc \<subseteq> set (nodes gr)"
    unfolding cc_reach by (rule reach_subset_nodes [OF nx v])
  show n': "set (nodes gr') = cc"
    unfolding gr' nodes_remove_nodes_from using cc_sub by auto
  show "nx_graph gr'" unfolding gr' by (rule nx_graph_remove_nodes_from [OF nx])
  from nx have adj_sub: "adjacent gr \<subseteq> set (nodes gr) \<times> set (nodes gr)"
    and sy: "sym (adjacent gr)" by (simp_all add: nx_graph_alt)
  show a': "adjacent gr' = adjacent gr \<inter> cc \<times> cc"
    unfolding gr' adjacent_remove_nodes_from using adj_sub by auto
  assume s: "s \<in> cc"
  show "connected_from gr' s"
    unfolding connected_from_def n'
  proof
    fix w assume "w \<in> cc"
    with s have "(s, w) \<in> (adjacent gr \<inter> cc \<times> cc)\<^sup>*"
      unfolding cc_reach by (intro component_connected [OF sy]) simp_all
    then show "w \<in> (adjacent gr')\<^sup>* `` {s}" unfolding a' by simp
  qed
qed

section \<open>The builder keeps its invariant\<close>

lemma lines_of_simps [simp]:
  "lines_of (gr\<lparr>G := x\<rparr>) = lines_of gr"
  "lines_of (gr\<lparr>bus_geo := y\<rparr>) = lines_of gr"
  "lines_of (gr\<lparr>bus_voltage := z\<rparr>) = lines_of gr"
  "lines_of (gr\<lparr>line_data := w\<rparr>) = lines_of gr"
  "lines_of (gr\<lparr>ext_grid_bus := b\<rparr>) = lines_of gr"
  by (simp_all add: lines_of_def)

lemma line_edges_simps [simp]:
  "line_edges (gr\<lparr>G := x\<rparr>) = line_edges gr"
  "line_edges (gr\<lparr>bus_geo := y\<rparr>) = line_edges gr"
  "line_edges (gr\<lparr>bus_voltage := z\<rparr>) = line_edges gr"
  "line_edges (gr\<lparr>line_data := w\<rparr>) = line_edges gr"
  "line_edges (gr\<lparr>ext_grid_bus := b\<rparr>) = line_edges gr"
  by (simp_all add: line_edges_def)

lemma builder_inv_init: "builder_inv init_state"
  by (simp add: builder_inv_def init_state_def empty_grid_def nx_graph_empty nodes_def
      adjacent_empty line_edges_def lines_of_def)

lemma new_bus_inv:
  assumes inv: "builder_inv st" and key: "coord_to_bus st key = None"
  shows "builder_inv (st\<lparr>coord_to_bus := (coord_to_bus st)(key \<mapsto> bus_counter st),
            grid_of := (grid_of st)\<lparr>bus_geo := (bus_geo (grid_of st))(bus_counter st \<mapsto> p),
                         bus_voltage := (bus_voltage (grid_of st))(bus_counter st \<mapsto> v),
                         G := add_node (G (grid_of st)) (bus_counter st)\<rparr>,
            bus_counter := bus_counter st + 1\<rparr>)"
proof -
  from inv have nx: "nx_graph (G (grid_of st))" and bc: "0 \<le> bus_counter st"
    and ns: "set (nodes (G (grid_of st))) = {0..<bus_counter st}"
    and rn: "\<forall>k b. coord_to_bus st k = Some b \<longrightarrow> 0 \<le> b \<and> b < bus_counter st"
    and ad: "adjacent (G (grid_of st)) = line_edges (grid_of st) \<union> (line_edges (grid_of st))\<inverse>"
    and ll: "line_list (grid_of st) = [0..<line_idx st]"
    and ix: "\<forall>a < line_idx st. idx (line_store (grid_of st) a) = int a
                             \<and> in_service (line_store (grid_of st) a)
                             \<and> from_bus (line_store (grid_of st) a)
                                   \<noteq> to_bus (line_store (grid_of st) a)"
    by (simp_all add: builder_inv_def)
  have r: "\<forall>k b. ((coord_to_bus st)(key \<mapsto> bus_counter st)) k = Some b
             \<longrightarrow> 0 \<le> b \<and> b < bus_counter st + 1"
  proof (intro allI impI)
    fix k b assume kb: "((coord_to_bus st)(key \<mapsto> bus_counter st)) k = Some b"
    show "0 \<le> b \<and> b < bus_counter st + 1"
    proof (cases "k = key")
      case True
      with kb bc show ?thesis by simp
    next
      case False
      with kb have "coord_to_bus st k = Some b" by simp
      with rn have "0 \<le> b \<and> b < bus_counter st" by blast
      then show ?thesis by simp
    qed
  qed
  have n: "set (nodes (add_node (G (grid_of st)) (bus_counter st))) = {0..<bus_counter st + 1}"
    unfolding nodes_add_node ns using bc by auto
  show ?thesis
    unfolding builder_inv_def
    using nx_graph_add_node [OF nx] bc r n ad ll ix
    by (simp add: adjacent_add_node)
qed

lemma get_or_create_buses_inv:
  assumes "builder_inv st" and "set ids \<subseteq> {0..<bus_counter st}"
    and "get_or_create_buses ops v coords st ids = (st', ids')"
  shows "builder_inv st' \<and> set ids' \<subseteq> {0..<bus_counter st'}"
  using assms
proof (induction ops v coords st ids rule: get_or_create_buses.induct)
  case (1 ops voltage st line_bus_ids)
  then show ?case by simp
next
  case (2 ops voltage coord rest st line_bus_ids)
  show ?case
  proof (cases "length coord < 2")
    case True
    with 2 show ?thesis by simp
  next
    case False
    let ?key = "(round4 ops (coord ! 0), round4 ops (coord ! 1))"
    show ?thesis
    proof (cases "coord_to_bus st ?key")
      case (Some bid)
      from "2.prems"(1) have "\<forall>k b. coord_to_bus st k = Some b \<longrightarrow> 0 \<le> b \<and> b < bus_counter st"
        by (simp add: builder_inv_def)
      with Some have "bid \<in> {0..<bus_counter st}" by auto
      with "2.prems"(2) have ids: "set (line_bus_ids @ [bid]) \<subseteq> {0..<bus_counter st}" by simp
      from "2.prems"(3) False Some
      have "get_or_create_buses ops voltage rest st (line_bus_ids @ [bid]) = (st', ids')"
        by (simp add: Let_def)
      from "2.IH"(3) [OF False refl refl refl Some "2.prems"(1) ids this] show ?thesis .
    next
      case None
      let ?bid = "bus_counter st"
      let ?st' = "st\<lparr>coord_to_bus := (coord_to_bus st)(?key \<mapsto> ?bid),
            grid_of := (grid_of st)\<lparr>bus_geo := (bus_geo (grid_of st))(?bid \<mapsto> (coord ! 0, coord ! 1)),
                         bus_voltage := (bus_voltage (grid_of st))(?bid \<mapsto> voltage),
                         G := add_node (G (grid_of st)) ?bid\<rparr>,
            bus_counter := ?bid + 1\<rparr>"
      have inv': "builder_inv ?st'" by (rule new_bus_inv [OF "2.prems"(1) None])
      from "2.prems"(1) have "0 \<le> ?bid" by (simp add: builder_inv_def)
      with "2.prems"(2) have ids: "set (line_bus_ids @ [?bid]) \<subseteq> {0..<bus_counter ?st'}"
        by auto
      from "2.prems"(3) False None
      have "get_or_create_buses ops voltage rest ?st' (line_bus_ids @ [?bid]) = (st', ids')"
        by (simp add: Let_def)
      from "2.IH"(2) [OF False refl refl refl None refl refl refl inv' ids this] show ?thesis .
    qed
  qed
qed

lemma new_line_inv:
  assumes inv: "builder_inv st"
    and fb: "0 \<le> fb \<and> fb < bus_counter st" and tb: "0 \<le> tb \<and> tb < bus_counter st"
    and ne: "fb \<noteq> tb"
    and li: "idx li = int (line_idx st)" "from_bus li = fb" "to_bus li = tb" "in_service li"
  shows "builder_inv (st\<lparr>grid_of := (grid_of st)\<lparr>G := add_edge (G (grid_of st)) fb tb,
                            line_data := ld,
                            line_list := line_list (grid_of st) @ [line_idx st],
                            line_store := (line_store (grid_of st))(line_idx st := li)\<rparr>,
                         line_idx := line_idx st + 1\<rparr>)"
proof -
  let ?gr = "grid_of st"
  let ?a = "line_idx st"
  let ?gr' = "?gr\<lparr>G := add_edge (G ?gr) fb tb, line_data := ld,
                 line_list := line_list ?gr @ [?a],
                 line_store := (line_store ?gr)(?a := li)\<rparr>"
  from inv have nx: "nx_graph (G ?gr)" and bc: "0 \<le> bus_counter st"
    and ns: "set (nodes (G ?gr)) = {0..<bus_counter st}"
    and rn: "\<forall>k b. coord_to_bus st k = Some b \<longrightarrow> 0 \<le> b \<and> b < bus_counter st"
    and ad: "adjacent (G ?gr) = line_edges ?gr \<union> (line_edges ?gr)\<inverse>"
    and ll: "line_list ?gr = [0..<?a]"
    and ix: "\<forall>a < ?a. idx (line_store ?gr a) = int a \<and> in_service (line_store ?gr a)
                \<and> from_bus (line_store ?gr a) \<noteq> to_bus (line_store ?gr a)"
    by (simp_all add: builder_inv_def)
  have lines: "lines_of ?gr' = lines_of ?gr @ [li]"
    unfolding lines_of_def using ll by simp
  have edges: "line_edges ?gr' = insert (fb, tb) (line_edges ?gr)"
    unfolding line_edges_def lines using li by auto
  have fbm: "fb \<in> {0..<bus_counter st}" and tbm: "tb \<in> {0..<bus_counter st}"
    using fb tb by simp_all
  have n: "set (nodes (G ?gr')) = {0..<bus_counter st}"
    using fbm tbm by (simp add: nodes_add_edge ns insert_absorb)
  have a: "adjacent (G ?gr') = line_edges ?gr' \<union> (line_edges ?gr')\<inverse>"
    unfolding edges using ad by (auto simp: adjacent_add_edge)
  have l: "line_list ?gr' = [0..<?a + 1]" using ll by simp
  have i: "\<forall>a < ?a + 1. idx (line_store ?gr' a) = int a \<and> in_service (line_store ?gr' a)
              \<and> from_bus (line_store ?gr' a) \<noteq> to_bus (line_store ?gr' a)"
    using ix li ne by (auto simp: less_Suc_eq)
  have g: "nx_graph (G ?gr')" using nx_graph_add_edge [OF nx] by simp
  show ?thesis
    unfolding builder_inv_def using g bc n rn a l i by simp
qed

lemma create_edges_inv:
  assumes "builder_inv st" and "set ids \<subseteq> {0..<bus_counter st}"
    and "create_edges ops fid v p ids i st = Inr st'"
  shows "builder_inv st' \<and> coord_to_bus st' = coord_to_bus st \<and> bus_counter st' = bus_counter st"
  using assms
proof (induction ops fid v p ids i st rule: create_edges.induct)
  case (1 ops feat_id voltage ptype fb tb rest i st)
  from "1.prems"(2) have fb: "0 \<le> fb \<and> fb < bus_counter st"
    and tb: "0 \<le> tb \<and> tb < bus_counter st"
    and rest: "set (tb # rest) \<subseteq> {0..<bus_counter st}" by auto
  show ?case
  proof (cases "fb = tb")
    case True
    with "1.prems"(3) have "create_edges ops feat_id voltage ptype (tb # rest) (i + 1) st = Inr st'"
      by simp
    from "1.IH"(1) [OF True "1.prems"(1) rest this] show ?thesis .
  next
    case False
    from "1.prems"(3) False obtain geo_fb geo_tb
      where gf: "bus_geo (grid_of st) fb = Some geo_fb"
        and gt: "bus_geo (grid_of st) tb = Some geo_tb"
      by (auto split: option.splits)
    let ?d = "haversine ops (snd geo_fb) (fst geo_fb) (snd geo_tb) (fst geo_tb)"
    let ?len = "if ?d < 0.001 then 0.01 else ?d"
    let ?a = "line_idx st"
    let ?li = "\<lparr>idx = int ?a, from_bus = fb, to_bus = tb, voltage_kv = voltage,
                name = line_name ops feat_id i voltage, power_type = ptype,
                length_km = ?len, in_service = True\<rparr>"
    let ?gr = "grid_of st"
    let ?st' = "st\<lparr>grid_of := ?gr\<lparr>G := add_edge (G ?gr) fb tb,
                            line_data := (line_data ?gr)((fb, tb) \<mapsto> ?a),
                            line_list := line_list ?gr @ [?a],
                            line_store := (line_store ?gr)(?a := ?li)\<rparr>,
                    line_idx := ?a + 1\<rparr>"
    have inv': "builder_inv ?st'"
      by (rule new_line_inv [OF "1.prems"(1) fb tb False]) simp_all
    have rest': "set (tb # rest) \<subseteq> {0..<bus_counter ?st'}" using rest by simp
    from "1.prems"(3) False gf gt
    have "create_edges ops feat_id voltage ptype (tb # rest) (i + 1) ?st' = Inr st'"
      by (simp add: Let_def)
    from "1.IH"(2) [OF False refl gf gt refl refl refl refl refl refl inv' rest' this]
    show ?thesis by simp
  qed
qed simp_all

lemma process_features_inv:
  assumes "builder_inv st" and "process_features ops feats i st = Inr st'"
  shows "builder_inv st'"
  using assms
proof (induction feats arbitrary: i st)
  case Nil
  then show ?case by simp
next
  case (Cons feat rest)
  let ?v = "parse_voltage_kv ops (case lf_voltage feat of None \<Rightarrow> [] | Some s \<Rightarrow> s)"
  let ?p = "case lf_power feat of None \<Rightarrow> ''line'' | Some p \<Rightarrow> p"
  let ?fid = "case lf_id feat of None \<Rightarrow> default_id ops i | Some s \<Rightarrow> s"
  show ?case
  proof (cases "length (lf_coords feat) < 2")
    case True
    with Cons.prems(2) have "process_features ops rest (i + 1) st = Inr st'"
      by (simp add: Let_def)
    from Cons.IH [OF Cons.prems(1) this] show ?thesis .
  next
    case False
    obtain st1 ids where g: "get_or_create_buses ops ?v (lf_coords feat) st [] = (st1, ids)"
      by (cases "get_or_create_buses ops ?v (lf_coords feat) st []") auto
    have e: "set ([]::int list) \<subseteq> {0..<bus_counter st}" by simp
    from get_or_create_buses_inv [OF Cons.prems(1) e g]
    have inv1: "builder_inv st1" and ids: "set ids \<subseteq> {0..<bus_counter st1}" by simp_all
    from Cons.prems(2) False g obtain st2
      where c: "create_edges ops ?fid ?v ?p ids 0 st1 = Inr st2"
        and r: "process_features ops rest (i + 1) st2 = Inr st'"
      by (auto simp: Let_def split: sum.splits)
    from create_edges_inv [OF inv1 ids c] have "builder_inv st2" by simp
    from Cons.IH [OF this r] show ?thesis .
  qed
qed

lemma reindex_other: "a \<notin> set as \<Longrightarrow> reindex as i st a = st a"
  by (induction as arbitrary: i st) simp_all

lemma reindex_fields:
  "from_bus (reindex as i st a) = from_bus (st a)
   \<and> to_bus (reindex as i st a) = to_bus (st a)
   \<and> in_service (reindex as i st a) = in_service (st a)
   \<and> length_km (reindex as i st a) = length_km (st a)"
  by (induction as arbitrary: i st) simp_all

lemma reindex_idx:
  "distinct as \<Longrightarrow> j < length as \<Longrightarrow> idx (reindex as i st (as ! j)) = int (i + j)"
proof (induction as arbitrary: i st j)
  case Nil
  then show ?case by simp
next
  case (Cons a as)
  show ?case
  proof (cases j)
    case 0
    from Cons.prems(1) have "a \<notin> set as" by simp
    then have "reindex as (i + 1) (st(a := (st a)\<lparr>idx := int i\<rparr>)) a
        = (st(a := (st a)\<lparr>idx := int i\<rparr>)) a"
      by (rule reindex_other)
    with 0 show ?thesis by simp
  next
    case (Suc k)
    from Cons.prems Suc have "distinct as" "k < length as" by simp_all
    then have "idx (reindex as (i + 1) (st(a := (st a)\<lparr>idx := int i\<rparr>)) (as ! k))
        = int (i + 1 + k)"
      by (rule Cons.IH)
    then show ?thesis using Suc by simp
  qed
qed

lemma builder_inv_lines_match:
  assumes "builder_inv st"
  shows "lines_match (grid_of st)"
proof -
  let ?gr = "grid_of st"
  from assms have nx: "nx_graph (G ?gr)"
    and ns: "set (nodes (G ?gr)) = {0..<bus_counter st}"
    and ad: "adjacent (G ?gr) = line_edges ?gr \<union> (line_edges ?gr)\<inverse>"
    and ll: "line_list ?gr = [0..<line_idx st]"
    and ix: "\<forall>a < line_idx st. idx (line_store ?gr a) = int a \<and> in_service (line_store ?gr a)
                \<and> from_bus (line_store ?gr a) \<noteq> to_bus (line_store ?gr a)"
    by (simp_all add: builder_inv_def)
  have n0: "\<forall>n \<in> set (nodes (G ?gr)). 0 \<le> n" unfolding ns by simp
  have d: "distinct (line_list ?gr)" unfolding ll by simp
  have so: "sorted (line_list ?gr)" unfolding ll by simp
  have i: "\<forall>i < length (line_list ?gr). idx (line_store ?gr (line_list ?gr ! i)) = int i"
    unfolding ll using ix by simp
  have l: "\<forall>l \<in> set (lines_of ?gr). in_service l \<and> from_bus l \<noteq> to_bus l"
    unfolding lines_of_def ll using ix by simp
  from nx n0 ad d so i l show ?thesis unfolding lines_match_def by blast
qed

lemma lines_match_wf:
  assumes "lines_match g"
  shows "wf_grid g"
proof -
  from assms have nx: "nx_graph (G g)" and n0: "\<forall>n \<in> set (nodes (G g)). 0 \<le> n"
    and ad: "adjacent (G g) = line_edges g \<union> (line_edges g)\<inverse>"
    by (simp_all add: lines_match_def)
  from nx have sub: "adjacent (G g) \<subseteq> set (nodes (G g)) \<times> set (nodes (G g))"
    by (simp add: nx_graph_alt)
  have "\<forall>l \<in> set (lines_of g). from_bus l \<in> set (nodes (G g)) \<and> to_bus l \<in> set (nodes (G g))"
  proof
    fix l assume "l \<in> set (lines_of g)"
    then have "(from_bus l, to_bus l) \<in> line_edges g" unfolding line_edges_def by blast
    with ad sub show "from_bus l \<in> set (nodes (G g)) \<and> to_bus l \<in> set (nodes (G g))" by blast
  qed
  with nx n0 show ?thesis by (simp add: wf_grid_def)
qed

lemma lines_match_source: "lines_match g \<Longrightarrow> lines_match (g\<lparr>ext_grid_bus := b\<rparr>)"
  by (simp add: lines_match_def)

lemma best_source_loop_member:
  assumes "best_source_loop ops gr c2b feats best bv = Inr (Some b)"
  shows "best = Some b \<or> b \<in> set (nodes (G gr))"
  using assms
proof (induction feats arbitrary: best bv)
  case Nil
  then show ?case by simp
next
  case (Cons feat rest)
  from Cons.prems obtain best' bv'
    where r: "best_source_loop ops gr c2b rest best' bv' = Inr (Some b)"
      and b: "best' = best \<or> (\<exists>n. best' = Some n \<and> n \<in> set (nodes (G gr)))"
    by (auto simp: Let_def split: sum.splits option.splits prod.splits if_splits
        geometry.splits list.splits)
  from Cons.IH [OF r] b show ?case by auto
qed

lemma find_best_source_bus_member:
  assumes "find_best_source_bus ops gr subs c2b = Inr b"
  shows "b \<in> set (nodes (G gr))"
proof (cases "best_source_loop ops gr c2b subs None (Finite 0)")
  case (Inl e)
  with assms show ?thesis by (simp add: find_best_source_bus_def)
next
  case (Inr r)
  show ?thesis
  proof (cases r)
    case None
    with Inr assms show ?thesis
      by (auto simp: find_best_source_bus_def split: list.splits)
  next
    case (Some n)
    with Inr assms have "n = b" by (simp add: find_best_source_bus_def)
    with Inr Some best_source_loop_member [of ops gr c2b subs None "Finite 0" b] show ?thesis by simp
  qed
qed

lemma line_edges_image:
  "line_edges g = (\<lambda>a. (from_bus (line_store g a), to_bus (line_store g a))) ` set (line_list g)"
  unfolding line_edges_def lines_of_def by auto

lemma keep_largest_inv:
  assumes lm: "lines_match gr" and ne: "nodes (G gr) \<noteq> []"
  shows "lines_match (keep_largest gr)
    \<and> nodes (G (keep_largest gr)) \<noteq> []
    \<and> (\<forall>s \<in> set (nodes (G (keep_largest gr))). connected_from (G (keep_largest gr)) s)"
proof -
  from largest_component [OF ne] obtain v
    where v: "v \<in> set (nodes (G gr))"
      and lc: "max_by_len (connected_components (G gr)) = dfs_loop (G gr) [nbrs (G gr) v] [v]"
    by blast
  let ?ord = "dfs_loop (G gr) [nbrs (G gr) v] [v]"
  let ?cc = "set ?ord"
  let ?removed = "filter (\<lambda>n. n \<notin> ?cc) (nodes (G gr))"
  let ?G' = "remove_nodes_from (G gr) ?removed"
  let ?kept = "filter (\<lambda>a. from_bus (line_store gr a) \<in> ?cc \<and> to_bus (line_store gr a) \<in> ?cc)
                 (line_list gr)"
  let ?store' = "reindex ?kept 0 (line_store gr)"
  let ?kl = "keep_largest gr"
  have G_kl: "G ?kl = ?G'" by (simp add: keep_largest_def Let_def lc)
  have ll_kl: "line_list ?kl = ?kept" by (simp add: keep_largest_def Let_def lc)
  have st_kl: "line_store ?kl = ?store'" by (simp add: keep_largest_def Let_def lc)
  from lm have nx: "nx_graph (G gr)" and n0: "\<forall>n \<in> set (nodes (G gr)). 0 \<le> n"
    and ad: "adjacent (G gr) = line_edges gr \<union> (line_edges gr)\<inverse>"
    and d: "distinct (line_list gr)" and so: "sorted (line_list gr)"
    and l: "\<forall>l \<in> set (lines_of gr). in_service l \<and> from_bus l \<noteq> to_bus l"
    by (simp_all add: lines_match_def)
  note pr = pruned_graph_connected [OF nx v refl refl]
  have nodes': "set (nodes ?G') = ?cc" by (rule pr(1))
  have nx': "nx_graph ?G'" by (rule pr(2))
  have adj': "adjacent ?G' = adjacent (G gr) \<inter> ?cc \<times> ?cc" by (rule pr(3))
  have conn': "\<forall>s \<in> ?cc. connected_from ?G' s" using pr(4) by blast
  have vcc: "v \<in> ?cc" using dfs_loop_mono [of "[v]" "G gr" "[nbrs (G gr) v]"] by simp
  have cc_sub: "?cc \<subseteq> set (nodes (G gr))"
    unfolding dfs_from_source by (rule reach_subset_nodes [OF nx v])
  have ne': "nodes ?G' \<noteq> []" using nodes' vcc by auto
  have n0': "\<forall>n \<in> set (nodes ?G'). 0 \<le> n" unfolding nodes' using n0 cc_sub by blast
  have dk: "distinct ?kept" using d by simp
  have sk: "sorted ?kept" using so by (rule sorted_wrt_filter)
  have edges': "line_edges ?kl = line_edges gr \<inter> ?cc \<times> ?cc"
  proof -
    have "line_edges ?kl
        = (\<lambda>a. (from_bus (?store' a), to_bus (?store' a))) ` set ?kept"
      unfolding line_edges_image ll_kl st_kl ..
    also have "\<dots> = (\<lambda>a. (from_bus (line_store gr a), to_bus (line_store gr a))) ` set ?kept"
      by (simp add: reindex_fields)
    also have "\<dots> = line_edges gr \<inter> ?cc \<times> ?cc"
      unfolding line_edges_image by auto
    finally show ?thesis .
  qed
  have ad': "adjacent (G ?kl) = line_edges ?kl \<union> (line_edges ?kl)\<inverse>"
    unfolding G_kl adj' edges' ad by auto
  have ix': "\<forall>i < length (line_list ?kl). idx (line_store ?kl (line_list ?kl ! i)) = int i"
    unfolding ll_kl st_kl using reindex_idx [OF dk, of _ 0 "line_store gr"] by simp
  have l': "\<forall>l \<in> set (lines_of ?kl). in_service l \<and> from_bus l \<noteq> to_bus l"
  proof
    fix x assume "x \<in> set (lines_of ?kl)"
    then obtain a where a: "a \<in> set ?kept" and x: "x = ?store' a"
      unfolding lines_of_def ll_kl st_kl by auto
    from a have "line_store gr a \<in> set (lines_of gr)" unfolding lines_of_def by simp
    with l have "in_service (line_store gr a) \<and> from_bus (line_store gr a) \<noteq> to_bus (line_store gr a)"
      by blast
    then show "in_service x \<and> from_bus x \<noteq> to_bus x"
      unfolding x by (simp add: reindex_fields)
  qed
  have "lines_match ?kl"
    unfolding lines_match_def using nx' n0' ad' dk sk ix' l'
    by (simp add: G_kl ll_kl)
  moreover have "nodes (G ?kl) \<noteq> []" unfolding G_kl by (rule ne')
  moreover have "\<forall>s \<in> set (nodes (G ?kl)). connected_from (G ?kl) s"
    unfolding G_kl nodes' by (rule conn')
  ultimately show ?thesis by blast
qed

lemma build_grid_from_geojson_inv:
  assumes "build_grid_from_geojson ops cf max_lines = Inr g"
  shows "built_inv g"
proof -
  let ?feats = "slice_to (lines cf) max_lines @ slice_to (minor_lines cf) 100
                  @ slice_to (cables cf) 100"
  from assms obtain st where st: "process_features ops ?feats 0 init_state = Inr st"
    by (auto simp: build_grid_from_geojson_def Let_def split: sum.splits)
  have inv: "builder_inv st" by (rule process_features_inv [OF builder_inv_init st])
  have lm: "lines_match (grid_of st)" by (rule builder_inv_lines_match [OF inv])
  from inv have ns: "set (nodes (G (grid_of st))) = {0..<bus_counter st}"
    and bc: "0 \<le> bus_counter st" by (simp_all add: builder_inv_def)
  show ?thesis
  proof (cases "bus_counter st = 0")
    case True
    with assms st have g: "g = grid_of st"
      by (simp add: build_grid_from_geojson_def Let_def)
    from ns True have "nodes (G (grid_of st)) = []" by simp
    with lm g show ?thesis by (simp add: built_inv_def)
  next
    case False
    with bc ns have ne: "nodes (G (grid_of st)) \<noteq> []" by auto
    from assms st False obtain conn b
      where c: "is_connected (G (grid_of st)) = Inr conn"
        and b: "find_best_source_bus ops
                  (if \<not> conn then keep_largest (grid_of st) else grid_of st)
                  (substations cf) (coord_to_bus st) = Inr b"
        and g: "g = (if \<not> conn then keep_largest (grid_of st) else grid_of st)\<lparr>ext_grid_bus := b\<rparr>"
      by (auto simp: build_grid_from_geojson_def Let_def split: sum.splits)
    let ?gr = "if \<not> conn then keep_largest (grid_of st) else grid_of st"
    have core: "lines_match ?gr \<and> (\<forall>s \<in> set (nodes (G ?gr)). connected_from (G ?gr) s)"
    proof (cases conn)
      case True
      from lm have nx: "nx_graph (G (grid_of st))" by (simp add: lines_match_def)
      from c True have "is_connected (G (grid_of st)) = Inr True" by simp
      then have "\<forall>s \<in> set (nodes (G (grid_of st))). connected_from (G (grid_of st)) s"
        using is_connected_sound [OF nx] by blast
      with lm True show ?thesis by simp
    next
      case False
      with keep_largest_inv [OF lm ne] show ?thesis by simp
    qed
    have bm: "b \<in> set (nodes (G ?gr))" by (rule find_best_source_bus_member [OF b])
    have "lines_match g" unfolding g using core by (simp add: lines_match_source)
    moreover have "ext_grid_bus g = b" "G g = G ?gr" unfolding g by simp_all
    ultimately show ?thesis using core bm by (simp add: built_inv_def)
  qed
qed

section \<open>A built grid is energized everywhere\<close>

lemma energize_lines_apply:
  "energize_lines as st a = (if a \<in> set as then (st a)\<lparr>in_service := True\<rparr> else st a)"
  by (induction as arbitrary: st) auto

lemma energize_grid_simps [simp]:
  "G (energize_grid g) = G g"
  "line_list (energize_grid g) = line_list g"
  "ext_grid_bus (energize_grid g) = ext_grid_bus g"
  by (simp_all add: energize_grid_def)

lemma lines_of_energize_grid:
  "lines_of (energize_grid g) = map (\<lambda>l. l\<lparr>in_service := True\<rparr>) (lines_of g)"
  by (simp add: lines_of_def energize_grid_def energize_lines_apply)

lemma in_service_edges_energize_grid: "in_service_edges (energize_grid g) = line_edges g"
proof
  show "in_service_edges (energize_grid g) \<subseteq> line_edges g"
    unfolding in_service_edges_def line_edges_def lines_of_energize_grid by auto
  show "line_edges g \<subseteq> in_service_edges (energize_grid g)"
  proof
    fix p assume "p \<in> line_edges g"
    then obtain l where l: "l \<in> set (lines_of g)" and p: "p = (from_bus l, to_bus l)"
      unfolding line_edges_def by auto
    let ?l' = "l\<lparr>in_service := True\<rparr>"
    have m: "?l' \<in> set (lines_of (energize_grid g))"
      unfolding lines_of_energize_grid using l by simp
    have "(from_bus ?l', to_bus ?l') \<in> in_service_edges (energize_grid g)"
      unfolding in_service_edges_def using m by (intro CollectI exI [of _ ?l']) simp
    then show "p \<in> in_service_edges (energize_grid g)" unfolding p by simp
  qed
qed

lemma wf_grid_energize_grid: "wf_grid g \<Longrightarrow> wf_grid (energize_grid g)"
  by (simp add: wf_grid_def lines_of_energize_grid)

lemma built_inv_energized:
  assumes bi: "built_inv g" and ne: "nodes (G g) \<noteq> []"
  shows "energized_set (energize_grid g) = set (nodes (G g))"
    and "\<forall>b \<in> set (nodes (G g)). get_energized_status (energize_grid g) b = Some 1"
proof -
  from bi ne have lm: "lines_match g" and src: "ext_grid_bus g \<in> set (nodes (G g))"
    and conn: "connected_from (G g) (ext_grid_bus g)"
    by (simp_all add: built_inv_def)
  from lm have nx: "nx_graph (G g)"
    and ad: "adjacent (G g) = line_edges g \<union> (line_edges g)\<inverse>"
    by (simp_all add: lines_match_def)
  have "energized_set (energize_grid g) = (adjacent (G g))\<^sup>* `` {ext_grid_bus g}"
    by (simp add: energized_set_def in_service_edges_energize_grid ad)
  also have "\<dots> = set (nodes (G g))"
    using reach_subset_nodes [OF nx src] conn by (auto simp: connected_from_def)
  finally show es: "energized_set (energize_grid g) = set (nodes (G g))" .
  have wf: "wf_grid (energize_grid g)"
    by (rule wf_grid_energize_grid [OF lines_match_wf [OF lm]])
  show "\<forall>b \<in> set (nodes (G g)). get_energized_status (energize_grid g) b = Some 1"
    using get_energized_status_char [OF wf] es src by simp
qed

section \<open>The great-circle distance along the equator\<close>

lemma atan2_abs_sin_cos:
  assumes "- pi / 2 < x" and "x < pi / 2"
  shows "atan2 (sqrt ((sin x)\<^sup>2)) (sqrt (1 - (sin x)\<^sup>2)) = \<bar>x\<bar>"
proof -
  have c: "0 < cos x" using assms by (intro cos_gt_zero_pi) simp_all
  have "1 - (sin x)\<^sup>2 = (cos x)\<^sup>2" by (simp add: cos_squared_eq)
  then have sc: "sqrt (1 - (sin x)\<^sup>2) = cos x" using c by simp
  have ss: "sqrt ((sin x)\<^sup>2) = \<bar>sin x\<bar>" by simp
  have t: "\<bar>sin x\<bar> / cos x = tan \<bar>x\<bar>"
  proof (cases "0 \<le> x")
    case True
    then have "0 \<le> sin x" using assms by (intro sin_ge_zero) simp_all
    with True show ?thesis by (simp add: tan_def)
  next
    case False
    then have "0 \<le> sin (- x)" using assms by (intro sin_ge_zero) simp_all
    then have "sin x \<le> 0" by simp
    with False show ?thesis by (simp add: tan_def)
  qed
  have a: "- (pi / 2) < \<bar>x\<bar>" "\<bar>x\<bar> < pi / 2" using assms by (auto simp: abs_if)
  have "atan2 \<bar>sin x\<bar> (cos x) = arctan (tan \<bar>x\<bar>)" using c t by (simp add: atan2_def)
  also have "\<dots> = \<bar>x\<bar>" by (rule arctan_tan [OF a])
  finally show ?thesis unfolding ss sc .
qed

lemma haversine_equator:
  assumes "\<bar>lon2 - lon1\<bar> < 180"
  shows "haversine_real 0 lon1 0 lon2 = 6371 * \<bar>lon2 - lon1\<bar> * pi / 180"
proof -
  let ?x = "radians (lon2 - lon1) / 2"
  define t where "t = (lon2 - lon1) * pi"
  have x: "?x = t / 360" by (simp add: radians_def t_def)
  from assms have d: "- 180 < lon2 - lon1" "lon2 - lon1 < 180" by (simp_all add: abs_less_iff)
  from d(2) have "(lon2 - lon1) * pi < 180 * pi"
    using pi_gt_zero by (rule mult_strict_right_mono)
  moreover from d(1) have "- 180 * pi < (lon2 - lon1) * pi"
    using pi_gt_zero by (rule mult_strict_right_mono)
  ultimately have b: "- pi / 2 < ?x" "?x < pi / 2"
    unfolding x t_def [symmetric] by simp_all
  have "haversine_real 0 lon1 0 lon2
      = 6371 * 2 * atan2 (sqrt ((sin ?x)\<^sup>2)) (sqrt (1 - (sin ?x)\<^sup>2))"
    by (simp add: haversine_real_def radians_def)
  also have "\<dots> = 6371 * 2 * \<bar>?x\<bar>" by (simp only: atan2_abs_sin_cos [OF b])
  also have "\<dots> = 6371 * \<bar>lon2 - lon1\<bar> * pi / 180"
    by (simp add: radians_def abs_mult)
  finally show ?thesis .
qed

lemma round4_values:
  "py_round4 0 = 0" "py_round4 1 = 1" "py_round4 2 = 2" "py_round4 5 = 5" "py_round4 6 = 6"
  "py_round4 0.00006 = 0.0001"
  by (simp_all add: py_round4_def Let_def)

section \<open>The builder on a line of two points\<close>

lemmas graph_eval = add_node_def add_edge_def add_nbr_def nodes_def nbrs_def
  remove_nodes_from_def is_connected_def connected_components_def max_by_len_def

lemma build_two_points:
  assumes k: "round4 ops x1 \<noteq> round4 ops x2"
  shows "\<exists>g. build_grid_from_geojson ops
            \<lparr>lines = [\<lparr>lf_id = Some fid, lf_voltage = v, lf_power = p,
                         lf_coords = [[x1, y1], [x2, y2]]\<rparr>],
             minor_lines = [], cables = [], substations = []\<rparr> 5000 = Inr g
          \<and> nodes (G g) = [0, 1] \<and> line_list g = [0]
          \<and> length_km (line_store g 0)
              = (if haversine ops y1 x1 y2 x2 < 0.001 then 0.01 else haversine ops y1 x1 y2 x2)"
  using k
  by (simp add: build_grid_from_geojson_def slice_to_def init_state_def empty_grid_def Let_def
      graph_eval find_best_source_bus_def)

section \<open>Counting the edges of the graph\<close>

lemma nbrs_Cons:
  "nbrs ((n, ns) # gr) x = (if x = n then ns else nbrs gr x)"
  by (simp add: nbrs_def)

lemma adjacent_Cons:
  assumes "n \<notin> set (nodes gr)"
  shows "adjacent ((n, ns) # gr) = ({n} \<times> set ns) \<union> adjacent gr"
proof -
  have "nbrs gr n = []" by (rule nbrs_not_node [OF assms])
  then show ?thesis by (auto simp: adjacent_def nbrs_Cons split: if_splits)
qed

lemma finite_adjacent: "finite (adjacent gr)"
proof -
  have "adjacent gr \<subseteq> set (nodes gr) \<times> (\<Union>n \<in> set (nodes gr). set (nbrs gr n))"
    by (auto simp: adjacent_def dest: in_nbrs_node)
  then show ?thesis by (rule finite_subset) simp
qed

lemma degree_sum_card:
  assumes "distinct (map fst gr)" and "\<forall>(n, ns) \<in> set gr. distinct ns"
  shows "sum_list (map (\<lambda>(n, ns). length ns) gr) = card (adjacent gr)"
  using assms
proof (induction gr)
  case Nil
  show ?case by (simp add: adjacent_empty)
next
  case (Cons e gr)
  obtain n ns where e: "e = (n, ns)" by (cases e)
  from Cons.prems e have n: "n \<notin> set (nodes gr)" and d: "distinct ns"
    and d': "distinct (map fst gr)" and a': "\<forall>(n, ns) \<in> set gr. distinct ns"
    by (auto simp: nodes_def)
  have disj: "({n} \<times> set ns) \<inter> adjacent gr = {}"
    using n by (auto simp: adjacent_def dest: in_nbrs_node)
  have "card (adjacent (e # gr)) = card ({n} \<times> set ns) + card (adjacent gr)"
    unfolding e adjacent_Cons [OF n]
    by (rule card_Un_disjoint [OF _ finite_adjacent disj]) simp
  also have "card ({n} \<times> set ns) = length ns"
    using d by (simp add: card_cartesian_product distinct_card)
  finally show ?case using Cons.IH [OF d' a'] e by simp
qed

lemma map_of_entry:
  assumes "distinct (map fst gr)" and "(n, ns) \<in> set gr"
  shows "nbrs gr n = ns"
  using assms by (simp add: nbrs_def)

lemma number_of_edges_card:
  assumes nx: "nx_graph gr" and irr: "\<forall>n. (n, n) \<notin> adjacent gr"
  shows "number_of_edges gr = card (adjacent gr) div 2"
proof -
  from nx have dk: "distinct (map fst gr)" by (simp add: nx_graph_def nodes_def)
  have ent: "\<And>n ns. (n, ns) \<in> set gr \<Longrightarrow> nbrs gr n = ns"
    using dk by (rule map_of_entry)
  have dn: "\<forall>(n, ns) \<in> set gr. distinct ns"
  proof (clarify)
    fix n ns assume m: "(n, ns) \<in> set gr"
    from nx have "distinct (nbrs gr n)" by (simp add: nx_graph_alt)
    then show "distinct ns" unfolding ent [OF m] .
  qed
  have noloop: "\<forall>(n, ns) \<in> set gr. n \<notin> set ns"
  proof (clarify)
    fix n ns assume m: "(n, ns) \<in> set gr" and "n \<in> set ns"
    then have "(n, n) \<in> adjacent gr" unfolding adjacent_def using ent [OF m] by simp
    with irr show False by blast
  qed
  have eq: "map (\<lambda>(n, ns). length ns + (if n \<in> set ns then 1 else 0)) gr
      = map (\<lambda>(n, ns). length ns) gr"
    using noloop by (intro map_cong) auto
  show ?thesis
    unfolding number_of_edges_def eq degree_sum_card [OF dk dn] ..
qed

section \<open>The builder on two islands\<close>

lemma parse_voltage_values:
  assumes "to_double ops = Finite"
  shows "parse_voltage_kv ops (str ''11000'') = Finite 11"
    and "parse_voltage_kv ops (str ''33000'') = Finite 33"
  using assms by (simp_all add: pv_defs)

lemma build_two_islands:
  "\<exists>g. build_grid_from_geojson exact_ops two_islands 5000 = Inr g
       \<and> G g = [(2, [3]), (3, [2, 4]), (4, [3])] \<and> ext_grid_bus g = 3
       \<and> line_list g = [1, 2]
       \<and> idx (line_store g 1) = 0 \<and> idx (line_store g 2) = 1
       \<and> from_bus (line_store g 1) = 2 \<and> to_bus (line_store g 1) = 3
       \<and> from_bus (line_store g 2) = 3 \<and> to_bus (line_store g 2) = 4"
  by (simp add: build_grid_from_geojson_def slice_to_def init_state_def empty_grid_def Let_def
      graph_eval find_best_source_bus_def two_islands_def exact_ops_def round4_values
      parse_voltage_values keep_largest_def split del: if_split)

section \<open>Connectivity and line lengths of a built grid\<close>

text \<open>
  C2. Whatever the classified features, the numeric operations and the budget: when the
  builder returns a grid with at least one node, the source is a node and every node is
  reachable from it in the full graph; with all lines in service the set of the nodes
  reachable from the source is the whole node set, and every node is reported energized.
\<close>

theorem build_grid_connected:
  assumes "build_grid_from_geojson ops cf max_lines = Inr g" and "nodes (G g) \<noteq> []"
  shows "ext_grid_bus g \<in> set (nodes (G g))
    \<and> connected_from (G g) (ext_grid_bus g)
    \<and> energized_set (energize_grid g) = set (nodes (G g))
    \<and> (\<forall>b \<in> set (nodes (G g)). get_energized_status (energize_grid g) b = Some 1)"
proof -
  have bi: "built_inv g" by (rule build_grid_from_geojson_inv [OF assms(1)])
  with assms(2) have "ext_grid_bus g \<in> set (nodes (G g))"
    "connected_from (G g) (ext_grid_bus g)"
    by (simp_all add: built_inv_def)
  with built_inv_energized [OF bi assms(2)] show ?thesis by blast
qed

theorem build_grid_connected_witness:
  "\<exists>g. build_grid_from_geojson exact_ops two_islands 5000 = Inr g
       \<and> nodes (G g) = [2, 3, 4] \<and> ext_grid_bus g = 3
       \<and> connected_from (G g) 3
       \<and> energized_set (energize_grid g) = {2, 3, 4}
       \<and> (\<forall>b \<in> {2, 3, 4}. get_energized_status (energize_grid g) b = Some 1)"
proof -
  from build_two_islands obtain g
    where b: "build_grid_from_geojson exact_ops two_islands 5000 = Inr g"
      and gg: "G g = [(2, [3]), (3, [2, 4]), (4, [3])]" and s: "ext_grid_bus g = 3"
    by blast
  have n: "nodes (G g) = [2, 3, 4]" unfolding gg by (simp add: nodes_def)
  then have ne: "nodes (G g) \<noteq> []" by simp
  from build_grid_connected [OF b ne] n s
  have "connected_from (G g) 3 \<and> energized_set (energize_grid g) = {2, 3, 4}
      \<and> (\<forall>b \<in> {2, 3, 4}. get_energized_status (energize_grid g) b = Some 1)"
    by auto
  with b n s show ?thesis by blast
qed

text \<open>
  C9 fails on the code: two points 0.00006 degrees apart on the equator fall on different
  nodes, and the line between them is stored with its computed length, about 0.0067 km,
  which is below 0.01 km. Only a computed length below 0.001 km is replaced (by 0.01).
\<close>

theorem close_points_length_below_minimum:
  "\<exists>g. build_grid_from_geojson exact_ops close_points 5000 = Inr g
       \<and> line_list g = [0]
       \<and> length_km (line_store g 0) = 6371 * 0.00006 * pi / 180
       \<and> 0.001 \<le> length_km (line_store g 0)
       \<and> length_km (line_store g 0) < 0.01"
proof -
  let ?d = "haversine_real 0 0 0 0.00006"
  have d: "?d = 6371 * 0.00006 * pi / 180"
    using haversine_equator [of "0.00006" 0] by simp
  have lo: "0.001 \<le> ?d" unfolding d using pi_ge_two by simp
  have hi: "?d < 0.01" unfolding d using pi_less_4 by simp
  have r: "round4 exact_ops = py_round4" by (simp add: exact_ops_def)
  have k: "round4 exact_ops 0 \<noteq> round4 exact_ops 0.00006"
    unfolding r round4_values by simp
  from build_two_points [OF k, of "''w1''" "Some (str ''11000'')" None 0 0]
  obtain g where b: "build_grid_from_geojson exact_ops close_points 5000 = Inr g"
    and l: "line_list g = [0]"
    and len: "length_km (line_store g 0)
        = (if haversine exact_ops 0 0 0 0.00006 < 0.001 then 0.01
           else haversine exact_ops 0 0 0 0.00006)"
    unfolding close_points_def by blast
  have h: "haversine exact_ops 0 0 0 0.00006 = ?d" by (simp add: exact_ops_def)
  from len lo have "length_km (line_store g 0) = ?d" unfolding h by simp
  with b l d lo hi show ?thesis by (intro exI [of _ g]) simp
qed

section \<open>Line records and edges of the graph\<close>

lemma card_sym_pairs:
  fixes E :: "(int \<times> int) set"
  assumes fin: "finite E" and irr: "\<forall>(x, y) \<in> E. x \<noteq> y"
  shows "card (E \<union> E\<inverse>) = 2 * card ((\<lambda>(x, y). {x, y}) ` E)"
proof -
  let ?S = "E \<union> E\<inverse>"
  let ?lt = "{(x, y). (x, y) \<in> ?S \<and> x < y}"
  let ?gt = "{(x, y). (x, y) \<in> ?S \<and> y < x}"
  let ?mk = "\<lambda>(x, y). {x, y}"
  have finS: "finite ?S" using fin by simp
  have fl: "finite ?lt" by (rule finite_subset [OF _ finS]) auto
  have fg: "finite ?gt" by (rule finite_subset [OF _ finS]) auto
  have un: "?S = ?lt \<union> ?gt" using irr by auto
  have dj: "?lt \<inter> ?gt = {}" by auto
  have sw: "?gt = (\<lambda>(x, y). (y, x)) ` ?lt" by (auto simp: image_iff)
  have "inj_on (\<lambda>(x, y). (y, x)) ?lt" by (auto simp: inj_on_def)
  then have cg: "card ?gt = card ?lt" unfolding sw by (rule card_image)
  have "card ?S = card (?lt \<union> ?gt)" by (rule arg_cong [where f = card, OF un])
  also have "\<dots> = card ?lt + card ?gt" by (rule card_Un_disjoint [OF fl fg dj])
  finally have c2: "card ?S = 2 * card ?lt" using cg by simp
  have inj: "inj_on ?mk ?lt" by (auto simp: inj_on_def doubleton_eq_iff)
  have img: "?mk ` ?lt = ?mk ` E"
  proof
    show "?mk ` ?lt \<subseteq> ?mk ` E"
    proof
      fix p assume "p \<in> ?mk ` ?lt"
      then obtain x y where p: "p = {x, y}" and m: "(x, y) \<in> E \<or> (y, x) \<in> E" by auto
      from m show "p \<in> ?mk ` E"
      proof
        assume "(x, y) \<in> E"
        then have "?mk (x, y) \<in> ?mk ` E" by (rule imageI)
        then show ?thesis unfolding p by simp
      next
        assume "(y, x) \<in> E"
        then have "?mk (y, x) \<in> ?mk ` E" by (rule imageI)
        then show ?thesis unfolding p by (simp add: insert_commute)
      qed
    qed
    show "?mk ` E \<subseteq> ?mk ` ?lt"
    proof
      fix p assume "p \<in> ?mk ` E"
      then obtain x y where p: "p = {x, y}" and m: "(x, y) \<in> E" by auto
      from m irr have ne: "x \<noteq> y" by auto
      show "p \<in> ?mk ` ?lt"
      proof (cases "x < y")
        case True
        with m have "(x, y) \<in> ?lt" by simp
        then have "?mk (x, y) \<in> ?mk ` ?lt" by (rule imageI)
        then show ?thesis unfolding p by simp
      next
        case False
        with ne m have "(y, x) \<in> ?lt" by simp
        then have "?mk (y, x) \<in> ?mk ` ?lt" by (rule imageI)
        then show ?thesis unfolding p by (simp add: insert_commute)
      qed
    qed
  qed
  have "card (?mk ` E) = card ?lt" unfolding img [symmetric] by (rule card_image [OF inj])
  with c2 show ?thesis by simp
qed

lemma lines_match_num_lines:
  assumes "lines_match g"
  shows "num_lines g = card ((\<lambda>l. {from_bus l, to_bus l}) ` set (lines_of g))"
proof -
  from assms have nx: "nx_graph (G g)"
    and ad: "adjacent (G g) = line_edges g \<union> (line_edges g)\<inverse>"
    and l: "\<forall>l \<in> set (lines_of g). in_service l \<and> from_bus l \<noteq> to_bus l"
    by (simp_all add: lines_match_def)
  have le: "line_edges g = (\<lambda>l. (from_bus l, to_bus l)) ` set (lines_of g)"
    unfolding line_edges_def by auto
  have fin: "finite (line_edges g)" unfolding le by simp
  have irr: "\<forall>(x, y) \<in> line_edges g. x \<noteq> y" unfolding le using l by auto
  have irr': "\<forall>n. (n, n) \<notin> adjacent (G g)" unfolding ad using irr by auto
  have "num_lines g = card (line_edges g \<union> (line_edges g)\<inverse>) div 2"
    unfolding num_lines_def number_of_edges_card [OF nx irr'] ad ..
  also have "\<dots> = card ((\<lambda>(x, y). {x, y}) ` line_edges g)"
    unfolding card_sym_pairs [OF fin irr] by simp
  also have "(\<lambda>(x, y). {x, y}) ` line_edges g = (\<lambda>l. {from_bus l, to_bus l}) ` set (lines_of g)"
    unfolding le by (simp add: image_image)
  finally show ?thesis .
qed

lemma card_image_list:
  "card (f ` set xs) \<le> length xs"
  "(card (f ` set xs) = length xs) = distinct (map f xs)"
proof -
  have s: "f ` set xs = set (map f xs)" by simp
  show "card (f ` set xs) \<le> length xs"
    unfolding s using card_length [of "map f xs"] by simp
  show "(card (f ` set xs) = length xs) = distinct (map f xs)"
    unfolding s using card_distinct [of "map f xs"] distinct_card [of "map f xs"] by auto
qed

lemma build_back_and_forth:
  assumes k: "round4 ops x1 \<noteq> round4 ops x2"
  shows "\<exists>g. build_grid_from_geojson ops
            \<lparr>lines = [\<lparr>lf_id = Some fid, lf_voltage = v, lf_power = p,
                         lf_coords = [[x1, y1], [x2, y2], [x1, y1]]\<rparr>],
             minor_lines = [], cables = [], substations = []\<rparr> 5000 = Inr g
          \<and> G g = [(0, [1]), (1, [0])] \<and> line_list g = [0, 1]
          \<and> idx (line_store g 0) = 0 \<and> idx (line_store g 1) = 1"
  using k
  by (simp add: build_grid_from_geojson_def slice_to_def init_state_def empty_grid_def Let_def
      graph_eval find_best_source_bus_def split del: if_split)

section \<open>Line indices of a built grid\<close>

text \<open>
  C7, as stated, fails: a line that goes from one point to another and back gives two
  line records between the same two buses, which are one edge of the graph, so that
  \<open>num_lines\<close> is 1 while \<open>line_list\<close> has 2 records.
\<close>

theorem back_and_forth_counterexample:
  "records_and_edges (build_grid_from_geojson exact_ops back_and_forth 5000) = Inr (2, 1)"
proof -
  have r: "round4 exact_ops = py_round4" by (simp add: exact_ops_def)
  have k: "round4 exact_ops 0 \<noteq> round4 exact_ops 1"
    unfolding r round4_values by simp
  from build_back_and_forth [OF k, of "''w1''" "Some (str ''11000'')" None 0 0]
  obtain g where b: "build_grid_from_geojson exact_ops back_and_forth 5000 = Inr g"
    and gg: "G g = [(0, [1]), (1, [0])]" and l: "line_list g = [0, 1]"
    unfolding back_and_forth_def by blast
  have "num_lines g = 1" unfolding num_lines_def gg by (simp add: number_of_edges_def)
  with b l show ?thesis by (simp add: records_and_edges_def)
qed

text \<open>
  C7, amended. For every grid the builder returns: the line records of \<open>line_list\<close> are
  in the order of their creation, and the record at position \<open>i\<close> carries the index \<open>i\<close>,
  so that the stored indices are exactly \<open>0 .. len(line_list) - 1\<close>. \<open>num_lines\<close> is the
  number of different pairs of buses that the records join: it is at most the number of
  records, and equal to it exactly when no two records join the same two buses.
\<close>

theorem build_grid_line_indices:
  assumes "build_grid_from_geojson ops cf max_lines = Inr g"
  shows "(\<forall>i < length (line_list g). idx (line_store g (line_list g ! i)) = int i)
    \<and> sorted (line_list g) \<and> distinct (line_list g)
    \<and> num_lines g = card ((\<lambda>l. {from_bus l, to_bus l}) ` set (lines_of g))
    \<and> num_lines g \<le> length (line_list g)
    \<and> (num_lines g = length (line_list g))
        = distinct (map (\<lambda>l. {from_bus l, to_bus l}) (lines_of g))"
proof -
  have "built_inv g" by (rule build_grid_from_geojson_inv [OF assms])
  then have lm: "lines_match g" by (simp add: built_inv_def)
  then have a: "\<forall>i < length (line_list g). idx (line_store g (line_list g ! i)) = int i"
    and b: "sorted (line_list g)" and c: "distinct (line_list g)"
    by (simp_all add: lines_match_def)
  have len: "length (lines_of g) = length (line_list g)" by (simp add: lines_of_def)
  note n = lines_match_num_lines [OF lm]
  have d: "num_lines g \<le> length (line_list g)"
    unfolding n len [symmetric] by (rule card_image_list(1))
  have e: "(num_lines g = length (line_list g))
      = distinct (map (\<lambda>l. {from_bus l, to_bus l}) (lines_of g))"
    unfolding n len [symmetric] by (rule card_image_list(2))
  from a b c n d e show ?thesis by blast
qed

theorem build_grid_line_indices_witness:
  "\<exists>g. build_grid_from_geojson exact_ops two_islands 5000 = Inr g
       \<and> line_list g = [1, 2]
       \<and> idx (line_store g 1) = 0 \<and> idx (line_store g 2) = 1
       \<and> num_lines g = 2
       \<and> distinct (map (\<lambda>l. {from_bus l, to_bus l}) (lines_of g))"
proof -
  from build_two_islands obtain g
    where b: "build_grid_from_geojson exact_ops two_islands 5000 = Inr g"
      and gg: "G g = [(2, [3]), (3, [2, 4]), (4, [3])]"
      and l: "line_list g = [1, 2]"
    by blast
  have n: "num_lines g = 2" unfolding num_lines_def gg by (simp add: number_of_edges_def)
  from build_grid_line_indices [OF b]
  have ix: "\<forall>i < length (line_list g). idx (line_store g (line_list g ! i)) = int i"
    and eq: "(num_lines g = length (line_list g))
        = distinct (map (\<lambda>l. {from_bus l, to_bus l}) (lines_of g))"
    by blast+
  have p0: "0 < length (line_list g)" and p1: "1 < length (line_list g)" by (simp_all add: l)
  from ix [rule_format, OF p0] have i0: "idx (line_store g 1) = 0" by (simp add: l)
  from ix [rule_format, OF p1] have i1: "idx (line_store g 2) = 1" by (simp add: l)
  from eq n l have d: "distinct (map (\<lambda>l. {from_bus l, to_bus l}) (lines_of g))" by simp
  from b l n i0 i1 d show ?thesis by blast
qed

end
